theory Spec2Isabelle
  imports Main "HOL-Library.Char_ord" "HOL-Library.List_Lexorder" "HOL-Library.Product_Lexorder"
begin

section \<open>Values, keys and the ordered key-value store\<close>

text \<open>
  The database class \<open>Database\<close> of \<open>db.ts\<close> keeps all its data in a \<open>Deno.Kv\<close> store.
  A stored value is a JavaScript value; a record is an object, that is a finite map from
  field names to values. Numbers are restricted to integers and a \<open>Date\<close> is its
  timestamp.
\<close>

datatype jsval = Undefined | Null | Str string | Num int | Bool bool | Date int
  | Obj "string \<Rightarrow> jsval option"

type_synonym entry = "string \<Rightarrow> jsval option"

text \<open>
  \<open>Deno.KvKeyPart\<close> is \<open>Uint8Array | string | number | bigint | boolean\<close>; the code
  only builds keys from strings and from field values, so the model keeps strings, numbers
  and booleans. A key is a sequence of key parts.
\<close>

datatype keypart = KStr string | KNum int | KBool bool

type_synonym kvkey = "keypart list"

text \<open>The store: the bindings in ascending key order, as \<open>kv.list\<close> yields them.\<close>

type_synonym kv = "(kvkey \<times> jsval) list"

datatype error = TypeError | NotFound

text \<open>
  A value that is no key part (\<open>undefined\<close>, \<open>null\<close>, a date, an object) is rejected
  by the store with a \<open>TypeError\<close>, for reads and writes alike.
\<close>

fun to_keypart :: "jsval \<Rightarrow> keypart option" where
  "to_keypart (Str s) = Some (KStr s)"
| "to_keypart (Num n) = Some (KNum n)"
| "to_keypart (Bool b) = Some (KBool b)"
| "to_keypart Undefined = None"
| "to_keypart Null = None"
| "to_keypart (Date d) = None"
| "to_keypart (Obj r) = None"

fun of_keypart :: "keypart \<Rightarrow> jsval" where
  "of_keypart (KStr s) = Str s"
| "of_keypart (KNum n) = Num n"
| "of_keypart (KBool b) = Bool b"

fun encode_key :: "jsval list \<Rightarrow> kvkey option" where
  "encode_key [] = Some []"
| "encode_key (v # vs) =
     (case to_keypart v of
        None \<Rightarrow> None
      | Some p \<Rightarrow> (case encode_key vs of None \<Rightarrow> None | Some ps \<Rightarrow> Some (p # ps)))"

text \<open>
  Key order of the store: part by part, a proper prefix first; among parts, strings
  before numbers before booleans, strings by their bytes, \<open>false\<close> before \<open>true\<close>.
\<close>

fun part_code :: "keypart \<Rightarrow> nat \<times> string \<times> int" where
  "part_code (KStr s) = (1, s, 0)"
| "part_code (KNum n) = (2, [], n)"
| "part_code (KBool b) = (4, [], (if b then 1 else 0))"

definition key_less :: "kvkey \<Rightarrow> kvkey \<Rightarrow> bool" where
  "key_less k k' = (map part_code k < map part_code k')"

definition kv_ok :: "kv \<Rightarrow> bool" where
  "kv_ok s = sorted_wrt key_less (map fst s)"

fun put_raw :: "kv \<Rightarrow> kvkey \<Rightarrow> jsval \<Rightarrow> kv" where
  "put_raw [] k v = [(k, v)]"
| "put_raw ((k', v') # s) k v =
     (if k = k' then (k, v) # s
      else if key_less k k' then (k, v) # (k', v') # s
      else (k', v') # put_raw s k v)"

text \<open>\<open>kv.get(key)\<close>: \<open>None\<close> stands for an entry whose versionstamp is null.\<close>

definition kv_get :: "kv \<Rightarrow> jsval list \<Rightarrow> error + jsval option" where
  "kv_get s key =
     (case encode_key key of None \<Rightarrow> Inl TypeError | Some k \<Rightarrow> Inr (map_of s k))"

text \<open>\<open>kv.set(key, value)\<close> and \<open>kv.atomic().set(key, value).commit()\<close>.\<close>

definition kv_set :: "kv \<Rightarrow> jsval list \<Rightarrow> jsval \<Rightarrow> error + kv" where
  "kv_set s key v =
     (case encode_key key of None \<Rightarrow> Inl TypeError | Some k \<Rightarrow> Inr (put_raw s k v))"

text \<open>
  \<open>kv.list({ prefix }, { limit })\<close>: the bindings whose key starts with the prefix and is
  longer than it, in key order; \<open>None\<close> is the limit \<open>Infinity\<close>.
\<close>

fun has_prefix :: "kvkey \<Rightarrow> kvkey \<Rightarrow> bool" where
  "has_prefix [] k = (k \<noteq> [])"
| "has_prefix (p # ps) [] = False"
| "has_prefix (p # ps) (x # xs) = (p = x \<and> has_prefix ps xs)"

definition under :: "kvkey \<Rightarrow> kv \<Rightarrow> kv" where
  "under p s = filter (\<lambda>b. has_prefix p (fst b)) s"

fun limited :: "nat option \<Rightarrow> 'a list \<Rightarrow> 'a list" where
  "limited None xs = xs"
| "limited (Some n) xs = take n xs"

definition kv_list :: "kv \<Rightarrow> jsval list \<Rightarrow> nat option \<Rightarrow> error + (kvkey \<times> jsval) list" where
  "kv_list s prefix limit =
     (case encode_key prefix of
        None \<Rightarrow> Inl TypeError
      | Some p \<Rightarrow> Inr (limited limit (under p s)))"

section \<open>JavaScript helpers\<close>

text \<open>Reading a field of an object given as a record: a missing field is \<open>undefined\<close>.\<close>

definition field :: "entry \<Rightarrow> string \<Rightarrow> jsval" where
  "field r f = (case r f of None \<Rightarrow> Undefined | Some v \<Rightarrow> v)"

text \<open>
  Property access \<open>entry[name]\<close> on a stored value: it throws on \<open>undefined\<close> and
  \<open>null\<close>; the built-in properties of the other primitives are not modelled (they read
  as \<open>undefined\<close>).
\<close>

fun get_prop :: "jsval \<Rightarrow> string \<Rightarrow> error + jsval" where
  "get_prop (Obj r) f = Inr (field r f)"
| "get_prop Undefined f = Inl TypeError"
| "get_prop Null f = Inl TypeError"
| "get_prop (Str s) f = Inr Undefined"
| "get_prop (Num n) f = Inr Undefined"
| "get_prop (Bool b) f = Inr Undefined"
| "get_prop (Date d) f = Inr Undefined"

text \<open>The condition of \<open>if (key)\<close>.\<close>

fun truthy :: "jsval \<Rightarrow> bool" where
  "truthy Undefined = False"
| "truthy Null = False"
| "truthy (Str s) = (s \<noteq> [])"
| "truthy (Num n) = (n \<noteq> 0)"
| "truthy (Bool b) = b"
| "truthy (Date d) = True"
| "truthy (Obj r) = True"

text \<open>
  \<open>value[secondary_key.value as keyof Model]\<close>: the registry holds field names, written
  by \<open>create_index\<close>; for any other stored value the field reads as \<open>undefined\<close>.
\<close>

fun field_named :: "entry \<Rightarrow> jsval \<Rightarrow> jsval" where
  "field_named r (Str f) = field r f"
| "field_named r Undefined = Undefined"
| "field_named r Null = Undefined"
| "field_named r (Num n) = Undefined"
| "field_named r (Bool b) = Undefined"
| "field_named r (Date d) = Undefined"
| "field_named r (Obj x) = Undefined"

section \<open>The operations of \<open>Database\<close>\<close>

text \<open>
  Every operation takes the store and returns the store it leaves behind together with
  its result or the exception it throws: a write that happened before a throw stays.
\<close>

definition get_from_key :: "kv \<Rightarrow> jsval list \<Rightarrow> error + jsval option" where
  "get_from_key s key = kv_get s key"

text \<open>\<open>get_entry\<close>: \<open>(await this.get_from_key([table_name, id]))?.value\<close>.\<close>

definition get_entry :: "kv \<Rightarrow> string \<Rightarrow> jsval \<Rightarrow> error + jsval" where
  "get_entry s table_name ident =
     (case get_from_key s [Str table_name, ident] of
        Inl e \<Rightarrow> Inl e
      | Inr None \<Rightarrow> Inr Undefined
      | Inr (Some v) \<Rightarrow> Inr v)"

definition get_all_from_key ::
  "kv \<Rightarrow> jsval list \<Rightarrow> nat option \<Rightarrow> error + (kvkey \<times> jsval) list" where
  "get_all_from_key s key limit = kv_list s key limit"

definition get_all_entries :: "kv \<Rightarrow> string \<Rightarrow> nat option \<Rightarrow> error + jsval list" where
  "get_all_entries s table_name limit =
     (case kv_list s [Str table_name] limit of
        Inl e \<Rightarrow> Inl e
      | Inr es \<Rightarrow> Inr (map snd es))"

text \<open>
  The loop of \<open>create_indexes_for_entry\<close> over the registry entries of the table. Its
  writes go under \<open>"__indexes"\<close>, never under the listed prefix \<open>"__indexes_for"\<close>, so the
  lazy iterator yields what the listing held when the loop started.
\<close>

fun index_loop :: "kv \<Rightarrow> string \<Rightarrow> entry \<Rightarrow> (kvkey \<times> jsval) list \<Rightarrow> kv \<times> (error + unit)" where
  "index_loop s table_name val [] = (s, Inr ())"
| "index_loop s table_name val (secondary_key # rest) =
     (case kv_set s
             [Str ''__indexes'', Str table_name, snd secondary_key,
              field_named val (snd secondary_key), field val ''id'']
             (field val ''id'') of
        Inl e \<Rightarrow> (s, Inl e)
      | Inr s' \<Rightarrow> index_loop s' table_name val rest)"

definition create_indexes_for_entry :: "kv \<Rightarrow> string \<Rightarrow> entry \<Rightarrow> kv \<times> (error + unit)" where
  "create_indexes_for_entry s table_name val =
     (case kv_list s [Str ''__indexes_for'', Str table_name] None of
        Inl e \<Rightarrow> (s, Inl e)
      | Inr indexes_to_create \<Rightarrow> index_loop s table_name val indexes_to_create)"

text \<open>
  \<open>create_entry\<close>: the identifier \<open>ulid()\<close> and the date \<open>new Date()\<close> come from the
  environment and are parameters. In \<open>{ id, date_created, ...value }\<close> the fields of
  \<open>value\<close> win.
\<close>

definition create_entry ::
  "kv \<Rightarrow> string \<Rightarrow> entry \<Rightarrow> string \<Rightarrow> int \<Rightarrow> kv \<times> (error + entry)" where
  "create_entry s table_name val ident now =
     (let ent = [''id'' \<mapsto> Str ident, ''date_created'' \<mapsto> Date now] ++ val in
      case kv_set s [Str table_name, Str ident] (Obj ent) of
        Inl e \<Rightarrow> (s, Inl e)
      | Inr s1 \<Rightarrow>
          (case create_indexes_for_entry s1 table_name ent of
             (s2, Inl e) \<Rightarrow> (s2, Inl e)
           | (s2, Inr u) \<Rightarrow> (s2, Inr ent)))"

definition update_entry :: "kv \<Rightarrow> string \<Rightarrow> entry \<Rightarrow> kv \<times> (error + unit)" where
  "update_entry s table_name ent =
     (case kv_set s [Str table_name, field ent ''id''] (Obj ent) of
        Inl e \<Rightarrow> (s, Inl e)
      | Inr s1 \<Rightarrow> create_indexes_for_entry s1 table_name ent)"

text \<open>The loop of \<open>create_index\<close> over the entries of the table.\<close>

fun backfill :: "kv \<Rightarrow> string \<Rightarrow> string \<Rightarrow> jsval list \<Rightarrow> kv \<times> (error + unit)" where
  "backfill s table_name secondary_key [] = (s, Inr ())"
| "backfill s table_name secondary_key (ent # rest) =
     (case get_prop ent secondary_key of
        Inl e \<Rightarrow> (s, Inl e)
      | Inr key \<Rightarrow>
          if truthy key then
            (case get_prop ent ''id'' of
               Inl e \<Rightarrow> (s, Inl e)
             | Inr ident \<Rightarrow>
                 (case kv_set s
                         [Str ''__indexes'', Str table_name, Str secondary_key, key, ident]
                         ident of
                    Inl e \<Rightarrow> (s, Inl e)
                  | Inr s' \<Rightarrow> backfill s' table_name secondary_key rest))
          else backfill s table_name secondary_key rest)"

definition create_index :: "kv \<Rightarrow> string \<Rightarrow> string \<Rightarrow> kv \<times> (error + unit)" where
  "create_index s table_name secondary_key =
     (case get_from_key s [Str ''__indexes_for'', Str table_name, Str secondary_key] of
        Inl e \<Rightarrow> (s, Inl e)
      | Inr (Some marker) \<Rightarrow> (s, Inr ())
      | Inr None \<Rightarrow>
          (case kv_set s [Str ''__indexes_for'', Str table_name, Str secondary_key]
                  (Str secondary_key) of
             Inl e \<Rightarrow> (s, Inl e)
           | Inr s1 \<Rightarrow>
               (case get_all_entries s1 table_name None of
                  Inl e \<Rightarrow> (s1, Inl e)
                | Inr es \<Rightarrow> backfill s1 table_name secondary_key es)))"

text \<open>
  \<open>get_entries_by_index\<close>: \<open>Array.fromAsync\<close> maps every listed index entry through
  \<open>get_entry\<close>; the first throw ends it.
\<close>

fun deref_all :: "kv \<Rightarrow> string \<Rightarrow> (kvkey \<times> jsval) list \<Rightarrow> error + jsval list" where
  "deref_all s table_name [] = Inr []"
| "deref_all s table_name (e # es) =
     (case get_entry s table_name (snd e) of
        Inl err \<Rightarrow> Inl err
      | Inr v \<Rightarrow>
          (case deref_all s table_name es of
             Inl err \<Rightarrow> Inl err
           | Inr vs \<Rightarrow> Inr (v # vs)))"

definition get_entries_by_index :: "kv \<Rightarrow> string \<Rightarrow> string \<Rightarrow> jsval \<Rightarrow> error + jsval list" where
  "get_entries_by_index s table_name secondary_key secondary_key_value =
     (case get_all_from_key s
             [Str ''__indexes'', Str table_name, Str secondary_key, secondary_key_value] None of
        Inl e \<Rightarrow> Inl e
      | Inr entries \<Rightarrow> deref_all s table_name entries)"

text \<open>\<open>get_entry_by_index\<close>: \<open>entries[0]?.value\<close> is \<open>undefined\<close> for an empty listing.\<close>

definition get_entry_by_index :: "kv \<Rightarrow> string \<Rightarrow> string \<Rightarrow> jsval \<Rightarrow> error + jsval" where
  "get_entry_by_index s table_name secondary_key secondary_key_value =
     (case get_all_from_key s
             [Str ''__indexes'', Str table_name, Str secondary_key, secondary_key_value] None of
        Inl e \<Rightarrow> Inl e
      | Inr entries \<Rightarrow>
          get_entry s table_name (case entries of [] \<Rightarrow> Undefined | e # es \<Rightarrow> snd e))"

section \<open>Deleting a record\<close>

text \<open>
  The repository's test calls \<open>delete_entry\<close>, which this version of \<open>db.ts\<close> does not
  define. The operation and the helpers it needs are therefore taken from the spec.
\<close>

text \<open>
  Modelled from the spec: the store's primitive \<open>delete(key)\<close>, which the spec lists among
  the required primitives of the key-value store and the source never calls. It removes
  the binding of the key.
\<close>

definition del_raw :: "kv \<Rightarrow> kvkey \<Rightarrow> kv" where
  "del_raw s k = filter (\<lambda>b. fst b \<noteq> k) s"

text \<open>
  Modelled from the spec: \<open>delete(key)\<close> on a key given as values; as for reads and
  writes, a value that is no key part is rejected.
\<close>

definition kv_delete :: "kv \<Rightarrow> jsval list \<Rightarrow> error + kv" where
  "kv_delete s key =
     (case encode_key key of None \<Rightarrow> Inl TypeError | Some k \<Rightarrow> Inr (del_raw s k))"

text \<open>
  Modelled from the spec: the loop of \<open>on_delete\<close>, missing from the source. The spec:
  "\<open>on_delete(table, record)\<close>: for every registered field, remove the corresponding
  \<open>IndexEntry\<close> if present". A field whose value gives no key has no entry to remove.
\<close>

fun on_delete_loop :: "kv \<Rightarrow> string \<Rightarrow> entry \<Rightarrow> jsval \<Rightarrow> (kvkey \<times> jsval) list \<Rightarrow> kv" where
  "on_delete_loop s table_name r ident [] = s"
| "on_delete_loop s table_name r ident (secondary_key # rest) =
     (case kv_delete s
             [Str ''__indexes'', Str table_name, snd secondary_key,
              field_named r (snd secondary_key), ident] of
        Inl e \<Rightarrow> on_delete_loop s table_name r ident rest
      | Inr s' \<Rightarrow> on_delete_loop s' table_name r ident rest)"

text \<open>
  Modelled from the spec: \<open>on_delete\<close>, missing from the source; the registered fields
  are the registry entries of the table, as in \<open>create_indexes_for_entry\<close>.
\<close>

definition on_delete :: "kv \<Rightarrow> string \<Rightarrow> entry \<Rightarrow> jsval \<Rightarrow> kv" where
  "on_delete s table_name r ident =
     on_delete_loop s table_name r ident (under [KStr ''__indexes_for'', KStr table_name] s)"

text \<open>
  Modelled from the spec: the argument \<open>record_or_id\<close> of \<open>delete\<close>, missing from the
  source. A record stands for its \<open>id\<close>; any other value is the identifier itself.
\<close>

definition target_id :: "jsval \<Rightarrow> jsval" where
  "target_id record_or_id =
     (case record_or_id of Obj r \<Rightarrow> field r ''id'' | _ \<Rightarrow> record_or_id)"

text \<open>
  Modelled from the spec: \<open>delete_entry\<close>, missing from the source. The spec:
  "\<open>delete(table, record_or_id)\<close>: removes \<open>(table, id)\<close>, then calls \<open>on_delete\<close>. Fails
  with \<open>NotFound\<close> if the record does not exist". The field values \<open>on_delete\<close> needs are
  those of the stored record.
\<close>

definition delete_entry :: "kv \<Rightarrow> string \<Rightarrow> jsval \<Rightarrow> kv \<times> (error + unit)" where
  "delete_entry s table_name record_or_id =
     (case kv_get s [Str table_name, target_id record_or_id] of
        Inl e \<Rightarrow> (s, Inl e)
      | Inr None \<Rightarrow> (s, Inl NotFound)
      | Inr (Some v) \<Rightarrow>
          (case kv_delete s [Str table_name, target_id record_or_id] of
             Inl e \<Rightarrow> (s, Inl e)
           | Inr s1 \<Rightarrow>
               (on_delete s1 table_name (case v of Obj r \<Rightarrow> r | _ \<Rightarrow> Map.empty)
                  (target_id record_or_id), Inr ())))"

section \<open>Sequences of operations\<close>

text \<open>
  The operations that write: \<open>create_entry\<close> (with the identifier and date it draws),
  \<open>update_entry\<close>, \<open>create_index\<close> and \<open>create_indexes_for_entry\<close>.
\<close>

datatype op =
    Create string entry string int
  | Update string entry
  | Declare string string
  | Reindex string entry

fun step :: "kv \<Rightarrow> op \<Rightarrow> kv \<times> (error + unit)" where
  "step s (Create table_name val ident now) =
     (case create_entry s table_name val ident now of
        (s', Inl e) \<Rightarrow> (s', Inl e)
      | (s', Inr r) \<Rightarrow> (s', Inr ()))"
| "step s (Update table_name ent) = update_entry s table_name ent"
| "step s (Declare table_name secondary_key) = create_index s table_name secondary_key"
| "step s (Reindex table_name val) = create_indexes_for_entry s table_name val"

text \<open>Running operations one after the other, as long as each returns normally.\<close>

fun run :: "kv \<Rightarrow> op list \<Rightarrow> kv option" where
  "run s [] = Some s"
| "run s (x # xs) =
     (case step s x of
        (s', Inl e) \<Rightarrow> None
      | (s', Inr u) \<Rightarrow> run s' xs)"

text \<open>
  The argument of \<open>create_entry\<close> has the type \<open>IncompleteModel\<close>, which omits \<open>id\<close>.
\<close>

fun well_typed :: "op \<Rightarrow> bool" where
  "well_typed (Create table_name val ident now) = (val ''id'' = None)"
| "well_typed (Update table_name ent) = True"
| "well_typed (Declare table_name secondary_key) = True"
| "well_typed (Reindex table_name val) = True"

text \<open>
  A sequence of \<open>create_entry\<close> calls on one table, each with its field set, the
  identifier \<open>ulid()\<close> gave and the date; a call that throws in its index step has
  stored its record all the same, and the caller goes on.
\<close>

fun creates :: "kv \<Rightarrow> string \<Rightarrow> (entry \<times> string \<times> int) list \<Rightarrow> kv" where
  "creates s table_name [] = s"
| "creates s table_name ((val, ident, now) # rest) =
     creates (fst (create_entry s table_name val ident now)) table_name rest"

text \<open>The identifier of a call and the record \<open>{ id, date_created, ...value }\<close> it builds.\<close>

fun ident_of :: "entry \<times> string \<times> int \<Rightarrow> string" where
  "ident_of (val, ident, now) = ident"

fun created :: "entry \<times> string \<times> int \<Rightarrow> jsval" where
  "created (val, ident, now) = Obj ([''id'' \<mapsto> Str ident, ''date_created'' \<mapsto> Date now] ++ val)"

section \<open>Predicates used in the statements\<close>

text \<open>
  An index entry of a table: the key is \<open>["__indexes", table, field, field value, id]\<close>
  and the value bound to it is the \<open>id\<close> component of the key.
\<close>

definition index_shape :: "string \<Rightarrow> kv \<Rightarrow> kvkey \<Rightarrow> bool" where
  "index_shape t s k =
     (\<exists>f v i. k = [KStr ''__indexes'', KStr t, f, v, i] \<and> map_of s k = Some (of_keypart i))"

text \<open>
  The index registry holds field names. A record stored under \<open>(table, id)\<close> carries that
  \<open>id\<close>. Coverage: a record whose registered field holds a non-empty (truthy) value has
  its index entry.
\<close>

definition markers_ok :: "kv \<Rightarrow> bool" where
  "markers_ok s =
     (\<forall>t f v. map_of s [KStr ''__indexes_for'', KStr t, KStr f] = Some v \<longrightarrow> v = Str f)"

definition records_ok :: "kv \<Rightarrow> bool" where
  "records_ok s =
     (\<forall>t ip r. map_of s [KStr t, ip] = Some (Obj r) \<longrightarrow> to_keypart (field r ''id'') = Some ip)"

definition covered_at :: "kv \<Rightarrow> string \<Rightarrow> keypart \<Rightarrow> bool" where
  "covered_at s t ip =
     (\<forall>r f. map_of s [KStr t, ip] = Some (Obj r) \<longrightarrow>
        map_of s [KStr ''__indexes_for'', KStr t, KStr f] \<noteq> None \<longrightarrow>
        truthy (field r f) \<longrightarrow>
        (\<exists>kp. to_keypart (field r f) = Some kp \<and>
              map_of s [KStr ''__indexes'', KStr t, KStr f, kp, ip] = Some (of_keypart ip)))"

definition covered :: "kv \<Rightarrow> bool" where
  "covered s = (\<forall>t ip. covered_at s t ip)"

text \<open>A change of the store that touches index entries only.\<close>

definition index_only :: "kv \<Rightarrow> kv \<Rightarrow> bool" where
  "index_only s s' = (\<forall>k. map_of s' k = map_of s k \<or> (\<exists>t. index_shape t s' k))"

section \<open>Concrete stores\<close>

text \<open>A store that holds one user and no index.\<close>

definition users1 :: kv where
  "users1 = [([KStr ''users'', KStr ''01A''],
      Obj [''id'' \<mapsto> Str ''01A'', ''date_created'' \<mapsto> Date 5, ''email'' \<mapsto> Str ''a@a''])]"

text \<open>The same store after \<open>create_index("users", "email")\<close>.\<close>

definition indexed1 :: kv where
  "indexed1 = fst (create_index users1 ''users'' ''email'')"

text \<open>The store \<open>users1\<close> after a second user was created.\<close>

definition users2 :: kv where
  "users2 = fst (create_entry users1 ''users'' [''email'' \<mapsto> Str ''b@b''] ''01B'' 7)"

text \<open>The store \<open>users1\<close> after the fields \<open>age\<close> and \<open>email\<close> were declared as indexes.\<close>

definition indexed2 :: kv where
  "indexed2 = fst (create_index (fst (create_index users1 ''users'' ''age'')) ''users'' ''email'')"

text \<open>
  The store \<open>indexed1\<close> with one more index entry, written straight into the store, whose
  record \<open>00Z\<close> does not exist.
\<close>

definition dangling :: kv where
  "dangling = put_raw indexed1
     [KStr ''__indexes'', KStr ''users'', KStr ''email'', KStr ''a@a'', KStr ''00Z''] (Str ''00Z'')"

text \<open>
  Declare an index on \<open>email\<close>, create a user, then change the user's \<open>email\<close>.
\<close>

definition email_changed :: "op list" where
  "email_changed =
     [Declare ''users'' ''email'',
      Create ''users'' [''email'' \<mapsto> Str ''a@a''] ''01A'' 5,
      Update ''users'' [''id'' \<mapsto> Str ''01A'', ''email'' \<mapsto> Str ''b@b'']]"

section \<open>Basic facts about the store and the two index loops\<close>

lemma map_of_put_raw: "map_of (put_raw s k v) = (map_of s)(k \<mapsto> v)"
  by (induction s) (auto simp: fun_eq_iff)

lemma of_to_keypart: "to_keypart v = Some p \<Longrightarrow> of_keypart p = v"
  by (cases v) auto

lemma encode_key_index:
  "encode_key [Str ''__indexes'', Str t, a, b, c] = Some k \<Longrightarrow>
   \<exists>f v i. k = [KStr ''__indexes'', KStr t, f, v, i] \<and> to_keypart a = Some f \<and> to_keypart b = Some v \<and> to_keypart c = Some i"
  by (auto split: option.splits)

lemma index_loop_changes:
  "index_loop s t val L = (s', r) \<Longrightarrow> map_of s' k = map_of s k \<or> index_shape t s' k"
proof (induction L arbitrary: s)
  case Nil
  then show ?case by simp
next
  case (Cons sk L)
  show ?case
  proof (cases "kv_set s [Str ''__indexes'', Str t, snd sk, field_named val (snd sk), field val ''id''] (field val ''id'')")
    case (Inl e)
    with Cons.prems show ?thesis by simp
  next
    case (Inr s1)
    with Cons.prems have loop: "index_loop s1 t val L = (s', r)" by simp
    from Inr obtain k1 where enc: "encode_key [Str ''__indexes'', Str t, snd sk, field_named val (snd sk), field val ''id''] = Some k1"
      and s1: "s1 = put_raw s k1 (field val ''id'')"
      by (auto simp: kv_set_def split: option.splits)
    from encode_key_index[OF enc] obtain f v i where
      k1: "k1 = [KStr ''__indexes'', KStr t, f, v, i]" and i: "to_keypart (field val ''id'') = Some i" by blast
    from Cons.IH[OF loop] consider "map_of s' k = map_of s1 k" | "index_shape t s' k" by blast
    then show ?thesis
    proof cases
      case 1
      show ?thesis
      proof (cases "k = k1")
        case True
        with 1 s1 k1 i have "index_shape t s' k"
          by (simp add: index_shape_def map_of_put_raw of_to_keypart)
        then show ?thesis ..
      next
        case False
        with 1 s1 show ?thesis by (simp add: map_of_put_raw)
      qed
    next
      case 2
      then show ?thesis ..
    qed
  qed
qed

lemma backfill_changes:
  "backfill s t f es = (s', r) \<Longrightarrow> map_of s' k = map_of s k \<or> index_shape t s' k"
proof (induction es arbitrary: s)
  case Nil
  then show ?case by simp
next
  case (Cons e es)
  show ?case
  proof (cases "get_prop e f")
    case (Inl err)
    with Cons.prems show ?thesis by simp
  next
    case key: (Inr key)
    show ?thesis
    proof (cases "truthy key")
      case False
      with key Cons.prems have "backfill s t f es = (s', r)" by simp
      from Cons.IH[OF this] show ?thesis .
    next
      case True
      show ?thesis
      proof (cases "get_prop e ''id''")
        case (Inl err)
        with key True Cons.prems show ?thesis by simp
      next
        case ident: (Inr ident)
        show ?thesis
        proof (cases "kv_set s [Str ''__indexes'', Str t, Str f, key, ident] ident")
          case (Inl err)
          with key True ident Cons.prems show ?thesis by simp
        next
          case (Inr s1)
          with key True ident Cons.prems have loop: "backfill s1 t f es = (s', r)" by simp
          from Inr obtain k1 where enc: "encode_key [Str ''__indexes'', Str t, Str f, key, ident] = Some k1"
            and s1: "s1 = put_raw s k1 ident"
            by (auto simp: kv_set_def split: option.splits)
          from encode_key_index[OF enc] obtain f' v i where
            k1: "k1 = [KStr ''__indexes'', KStr t, f', v, i]" and i: "to_keypart ident = Some i" by blast
          from Cons.IH[OF loop] consider "map_of s' k = map_of s1 k" | "index_shape t s' k" by blast
          then show ?thesis
          proof cases
            case 1
            show ?thesis
            proof (cases "k = k1")
              case True
              with 1 s1 k1 i have "index_shape t s' k"
                by (simp add: index_shape_def map_of_put_raw of_to_keypart)
              then show ?thesis ..
            next
              case False
              with 1 s1 show ?thesis by (simp add: map_of_put_raw)
            qed
          next
            case 2
            then show ?thesis ..
          qed
        qed
      qed
    qed
  qed
qed

lemma get_all_entries_total: "\<exists>es. get_all_entries s t None = Inr es"
  by (simp add: get_all_entries_def kv_list_def)

lemma marker_not_index: "\<not> index_shape t' s [KStr ''__indexes_for'', KStr t, KStr f]"
  by (simp add: index_shape_def)

lemma index_key_not_marker:
  "has_prefix [KStr ''__indexes''] k \<Longrightarrow> k \<noteq> [KStr ''__indexes_for'', KStr t, KStr f]"
  by auto

lemma index_shape_value:
  "index_shape t s [KStr ''__indexes'', a, b, c, ip] \<Longrightarrow>
     map_of s [KStr ''__indexes'', a, b, c, ip] = Some (of_keypart ip)"
  by (auto simp: index_shape_def)

lemma index_loop_keeps:
  assumes "index_loop s t val L = (s', r)"
    and "map_of s [KStr ''__indexes'', a, b, c, ip] = Some (of_keypart ip)"
  shows "map_of s' [KStr ''__indexes'', a, b, c, ip] = Some (of_keypart ip)"
  using index_loop_changes[OF assms(1), of "[KStr ''__indexes'', a, b, c, ip]"] assms(2)
    index_shape_value[of t s' a b c ip] by auto

lemma index_loop_post:
  assumes "index_loop s t val L = (s', Inr ())" and "(km, Str f) \<in> set L"
  shows "\<exists>kp ip. to_keypart (field val f) = Some kp \<and> to_keypart (field val ''id'') = Some ip \<and>
           map_of s' [KStr ''__indexes'', KStr t, KStr f, kp, ip] = Some (of_keypart ip)"
  using assms
proof (induction L arbitrary: s)
  case Nil
  then show ?case by simp
next
  case (Cons sk L)
  from Cons.prems(1) obtain s1 where
    set: "kv_set s [Str ''__indexes'', Str t, snd sk, field_named val (snd sk), field val ''id''] (field val ''id'') = Inr s1"
    and loop: "index_loop s1 t val L = (s', Inr ())"
    by (auto split: sum.splits)
  show ?case
  proof (cases "sk = (km, Str f)")
    case True
    from set True obtain k1 where
      enc: "encode_key [Str ''__indexes'', Str t, Str f, field val f, field val ''id''] = Some k1"
      and s1: "s1 = put_raw s k1 (field val ''id'')"
      by (auto simp: kv_set_def split: option.splits)
    from enc obtain kp ip where kp: "to_keypart (field val f) = Some kp"
      and ip: "to_keypart (field val ''id'') = Some ip"
      and k1: "k1 = [KStr ''__indexes'', KStr t, KStr f, kp, ip]"
      by (auto split: option.splits)
    from s1 k1 of_to_keypart[OF ip] have "map_of s1 [KStr ''__indexes'', KStr t, KStr f, kp, ip] = Some (of_keypart ip)"
      by (simp add: map_of_put_raw)
    from index_loop_keeps[OF loop this] kp ip show ?thesis by blast
  next
    case False
    with Cons.prems(2) have "(km, Str f) \<in> set L" by simp
    from Cons.IH[OF loop this] show ?thesis .
  qed
qed

lemma map_of_in_under:
  "map_of s k = Some v \<Longrightarrow> has_prefix p k \<Longrightarrow> (k, v) \<in> set (under p s)"
  by (auto simp: under_def dest: map_of_SomeD)

lemma create_indexes_for_entry_post:
  assumes "create_indexes_for_entry s t val = (s', Inr ())"
    and "map_of s [KStr ''__indexes_for'', KStr t, KStr f] = Some (Str f)"
  shows "\<exists>kp ip. to_keypart (field val f) = Some kp \<and> to_keypart (field val ''id'') = Some ip \<and>
           map_of s' [KStr ''__indexes'', KStr t, KStr f, kp, ip] = Some (of_keypart ip)"
proof -
  from assms(1) have loop: "index_loop s t val (under [KStr ''__indexes_for'', KStr t] s) = (s', Inr ())"
    by (simp add: create_indexes_for_entry_def kv_list_def)
  from assms(2) have "([KStr ''__indexes_for'', KStr t, KStr f], Str f) \<in> set (under [KStr ''__indexes_for'', KStr t] s)"
    by (rule map_of_in_under) simp
  from index_loop_post[OF loop this] show ?thesis .
qed

section \<open>Declaring an index\<close>

lemma create_index_registers:
  assumes "create_index s t f = (s', r)"
  shows "\<exists>m. map_of s' [KStr ''__indexes_for'', KStr t, KStr f] = Some m"
proof (cases "map_of s [KStr ''__indexes_for'', KStr t, KStr f]")
  case (Some m)
  with assms have "s' = s" by (simp add: create_index_def get_from_key_def kv_get_def)
  with Some show ?thesis by simp
next
  case None
  obtain es where es: "get_all_entries (put_raw s [KStr ''__indexes_for'', KStr t, KStr f] (Str f)) t None = Inr es"
    using get_all_entries_total by blast
  with None assms have bf: "backfill (put_raw s [KStr ''__indexes_for'', KStr t, KStr f] (Str f)) t f es = (s', r)"
    by (simp add: create_index_def get_from_key_def kv_get_def kv_set_def)
  from backfill_changes[OF bf, of "[KStr ''__indexes_for'', KStr t, KStr f]"] marker_not_index
  show ?thesis by (simp add: map_of_put_raw)
qed

lemma create_index_registered:
  "map_of s [KStr ''__indexes_for'', KStr t, KStr f] = Some m \<Longrightarrow> create_index s t f = (s, Inr ())"
  by (simp add: create_index_def get_from_key_def kv_get_def)

text \<open>
  C9. Declaring an index is idempotent. When the pair (table, field) is already registered,
  \<open>create_index\<close> returns normally and leaves the store as it was. A first call, whether
  it returns or throws during the backfill, leaves the pair registered, so a second call
  changes nothing: the store after two calls is the store after one.
\<close>

theorem create_index_idempotent:
  "(get_from_key s [Str ''__indexes_for'', Str t, Str f] = Inr (Some m) \<longrightarrow>
      create_index s t f = (s, Inr ())) \<and>
   create_index (fst (create_index s t f)) t f = (fst (create_index s t f), Inr ())"
proof
  show "get_from_key s [Str ''__indexes_for'', Str t, Str f] = Inr (Some m) \<longrightarrow>
      create_index s t f = (s, Inr ())"
    by (simp add: get_from_key_def kv_get_def create_index_registered)
next
  obtain s' r where c: "create_index s t f = (s', r)" by (cases "create_index s t f")
  from create_index_registers[OF c] obtain m' where "map_of s' [KStr ''__indexes_for'', KStr t, KStr f] = Some m'" ..
  from create_index_registered[OF this] c
  show "create_index (fst (create_index s t f)) t f = (fst (create_index s t f), Inr ())" by simp
qed

theorem create_index_idempotent_witness:
  "get_from_key (fst (create_index users1 ''users'' ''email''))
      [Str ''__indexes_for'', Str ''users'', Str ''email''] = Inr (Some (Str ''email'')) \<and>
   create_index (fst (create_index users1 ''users'' ''email'')) ''users'' ''email''
     = (fst (create_index users1 ''users'' ''email''), Inr ())"
proof -
  have h: "get_from_key (fst (create_index users1 ''users'' ''email''))
      [Str ''__indexes_for'', Str ''users'', Str ''email''] = Inr (Some (Str ''email''))"
    by (simp add: users1_def create_index_def get_from_key_def kv_get_def kv_set_def key_less_def
        get_all_entries_def kv_list_def under_def field_def)
  from create_index_idempotent[of "fst (create_index users1 ''users'' ''email'')" "''users''"
      "''email''" "Str ''email''"] h
  show ?thesis by blast
qed

section \<open>The shape of index entries\<close>

lemma create_index_changes:
  assumes "create_index s t f = (s', r)"
    and "has_prefix [KStr ''__indexes''] k"
  shows "map_of s' k = map_of s k \<or> index_shape t s' k"
proof (cases "map_of s [KStr ''__indexes_for'', KStr t, KStr f]")
  case (Some m)
  with assms(1) have "s' = s" by (simp add: create_index_def get_from_key_def kv_get_def)
  then show ?thesis by simp
next
  case None
  obtain es where es: "get_all_entries (put_raw s [KStr ''__indexes_for'', KStr t, KStr f] (Str f)) t None = Inr es"
    using get_all_entries_total by blast
  with None assms(1) have bf: "backfill (put_raw s [KStr ''__indexes_for'', KStr t, KStr f] (Str f)) t f es = (s', r)"
    by (simp add: create_index_def get_from_key_def kv_get_def kv_set_def)
  from backfill_changes[OF bf, of k] index_key_not_marker[OF assms(2), of t f]
  show ?thesis by (simp add: map_of_put_raw)
qed

lemma create_indexes_for_entry_changes:
  assumes "create_indexes_for_entry s t val = (s', r)"
  shows "map_of s' k = map_of s k \<or> index_shape t s' k"
proof -
  from assms have "index_loop s t val (under [KStr ''__indexes_for'', KStr t] s) = (s', r)"
    by (simp add: create_indexes_for_entry_def kv_list_def)
  from index_loop_changes[OF this] show ?thesis .
qed

text \<open>
  C10. Every key under the \<open>"__indexes"\<close> prefix whose binding \<open>create_index\<close> or
  \<open>create_indexes_for_entry\<close> writes or changes, whether the call returns or throws, has
  the shape \<open>["__indexes", table, field, field value, id]\<close>, and the value stored at the
  key is the \<open>id\<close> component of the key.
\<close>

theorem index_entry_shape:
  assumes "create_index s t f = (s', r) \<or> create_indexes_for_entry s t val = (s', r)"
    and "has_prefix [KStr ''__indexes''] k"
    and "map_of s' k \<noteq> map_of s k"
  shows "index_shape t s' k"
  using assms create_index_changes[of s t f s' r k] create_indexes_for_entry_changes[of s t val s' r k]
  by blast

theorem index_entry_shape_witness:
  "create_index users1 ''users'' ''email''
     = (fst (create_index users1 ''users'' ''email''), Inr ()) \<and>
   has_prefix [KStr ''__indexes'']
     [KStr ''__indexes'', KStr ''users'', KStr ''email'', KStr ''a@a'', KStr ''01A''] \<and>
   map_of (fst (create_index users1 ''users'' ''email''))
     [KStr ''__indexes'', KStr ''users'', KStr ''email'', KStr ''a@a'', KStr ''01A'']
     \<noteq> map_of users1 [KStr ''__indexes'', KStr ''users'', KStr ''email'', KStr ''a@a'', KStr ''01A''] \<and>
   index_shape ''users'' (fst (create_index users1 ''users'' ''email''))
     [KStr ''__indexes'', KStr ''users'', KStr ''email'', KStr ''a@a'', KStr ''01A'']"
proof -
  let ?k = "[KStr ''__indexes'', KStr ''users'', KStr ''email'', KStr ''a@a'', KStr ''01A'']"
  have ev: "create_index users1 ''users'' ''email''
     = (put_raw (put_raw users1 [KStr ''__indexes_for'', KStr ''users'', KStr ''email''] (Str ''email''))
          ?k (Str ''01A''), Inr ())"
    by (simp add: users1_def create_index_def get_from_key_def kv_get_def kv_set_def key_less_def
        get_all_entries_def kv_list_def under_def field_def)
  have h1: "create_index users1 ''users'' ''email''
     = (fst (create_index users1 ''users'' ''email''), Inr ())"
    by (simp add: ev)
  have h2: "has_prefix [KStr ''__indexes''] ?k" by simp
  have h3: "map_of (fst (create_index users1 ''users'' ''email'')) ?k \<noteq> map_of users1 ?k"
    unfolding ev by (simp add: map_of_put_raw users1_def)
  from index_entry_shape[OF disjI1[OF h1] h2 h3] h1 h2 h3 show ?thesis by blast
qed

section \<open>Creating and reading a record\<close>

lemma under_put_raw_other: "\<not> has_prefix p k \<Longrightarrow> under p (put_raw s k v) = under p s"
  by (induction s) (auto simp: under_def)

lemma has_prefix_length: "has_prefix p k \<Longrightarrow> length p < length k"
  by (induction p k rule: has_prefix.induct) auto

lemma record_key_not_index: "\<not> index_shape t' s [KStr t, ip]"
  by (simp add: index_shape_def)

lemma create_entry_stores:
  assumes "create_entry s t val ident now = (s', r)"
  shows "map_of s' [KStr t, KStr ident]
           = Some (Obj ([''id'' \<mapsto> Str ident, ''date_created'' \<mapsto> Date now] ++ val))"
proof -
  let ?ent = "[''id'' \<mapsto> Str ident, ''date_created'' \<mapsto> Date now] ++ val"
  let ?s1 = "put_raw s [KStr t, KStr ident] (Obj ?ent)"
  obtain s2 r2 where ci: "create_indexes_for_entry ?s1 t ?ent = (s2, r2)"
    by (cases "create_indexes_for_entry ?s1 t ?ent")
  with assms have "s' = s2"
    by (auto simp: create_entry_def kv_set_def Let_def split: sum.splits)
  with create_indexes_for_entry_changes[OF ci, of "[KStr t, KStr ident]"] record_key_not_index
  show ?thesis by (simp add: map_of_put_raw)
qed

lemma create_entry_result:
  "create_entry s t val ident now = (s', Inr r) \<Longrightarrow>
     r = [''id'' \<mapsto> Str ident, ''date_created'' \<mapsto> Date now] ++ val"
  by (auto simp: create_entry_def kv_set_def Let_def split: sum.splits prod.splits)

lemma index_loop_total:
  assumes "to_keypart (field val ''id'') \<noteq> None"
  shows "\<forall>b \<in> set L. to_keypart (snd b) \<noteq> None \<and> to_keypart (field_named val (snd b)) \<noteq> None \<Longrightarrow>
         \<exists>s'. index_loop s t val L = (s', Inr ())"
proof (induction L arbitrary: s)
  case Nil
  then show ?case by simp
next
  case (Cons b L)
  from Cons.prems assms obtain k where
    "encode_key [Str ''__indexes'', Str t, snd b, field_named val (snd b), field val ''id''] = Some k"
    by auto
  then have "kv_set s [Str ''__indexes'', Str t, snd b, field_named val (snd b), field val ''id'']
      (field val ''id'') = Inr (put_raw s k (field val ''id''))"
    by (simp add: kv_set_def)
  moreover from Cons.prems Cons.IH[of "put_raw s k (field val ''id'')"]
  obtain s' where "index_loop (put_raw s k (field val ''id'')) t val L = (s', Inr ())" by auto
  ultimately show ?case by simp
qed

lemma create_entry_total:
  assumes "val ''id'' = None"
    and "\<forall>b \<in> set (under [KStr ''__indexes_for'', KStr t] s).
           to_keypart (snd b) \<noteq> None \<and>
           to_keypart (field_named ([''id'' \<mapsto> Str ident, ''date_created'' \<mapsto> Date now] ++ val) (snd b))
             \<noteq> None"
  shows "\<exists>s' r. create_entry s t val ident now = (s', Inr r)"
proof -
  let ?ent = "[''id'' \<mapsto> Str ident, ''date_created'' \<mapsto> Date now] ++ val"
  let ?s1 = "put_raw s [KStr t, KStr ident] (Obj ?ent)"
  have "\<not> has_prefix [KStr ''__indexes_for'', KStr t] [KStr t, KStr ident]" by simp
  from under_put_raw_other[OF this]
  have u: "under [KStr ''__indexes_for'', KStr t] ?s1 = under [KStr ''__indexes_for'', KStr t] s" .
  from assms(1) have "to_keypart (field ?ent ''id'') \<noteq> None"
    by (simp add: field_def map_add_def)
  from index_loop_total[OF this, of "under [KStr ''__indexes_for'', KStr t] s" ?s1 t] assms(2)
  obtain s' where "index_loop ?s1 t ?ent (under [KStr ''__indexes_for'', KStr t] s) = (s', Inr ())"
    by blast
  with u show ?thesis
    by (simp add: create_entry_def kv_set_def Let_def create_indexes_for_entry_def kv_list_def)
qed

text \<open>
  The round trip on the calls that return. Let the field set carry no \<open>id\<close> of its own
  (the type \<open>IncompleteModel\<close> omits it). Whenever \<open>create_entry\<close> returns a record
  \<open>r\<close>, a following \<open>get_entry(table, r.id)\<close> returns \<open>r\<close>. And \<open>create_entry\<close> does return
  a record when the record it builds has a key-part value for every field registered as
  an index of the table.
\<close>

lemma create_get_roundtrip:
  assumes "val ''id'' = None"
  shows "(create_entry s t val ident now = (s', Inr r) \<longrightarrow>
            get_entry s' t (field r ''id'') = Inr (Obj r)) \<and>
         ((\<forall>b \<in> set (under [KStr ''__indexes_for'', KStr t] s).
             to_keypart (snd b) \<noteq> None \<and>
             to_keypart (field_named ([''id'' \<mapsto> Str ident, ''date_created'' \<mapsto> Date now] ++ val) (snd b))
               \<noteq> None) \<longrightarrow>
            (\<exists>s2 r2. create_entry s t val ident now = (s2, Inr r2)))"
proof (intro conjI impI)
  assume c: "create_entry s t val ident now = (s', Inr r)"
  from create_entry_result[OF c] assms have r: "r = [''id'' \<mapsto> Str ident, ''date_created'' \<mapsto> Date now] ++ val"
    and i: "field r ''id'' = Str ident"
    by (simp_all add: field_def map_add_def)
  from create_entry_stores[OF c] r i
  show "get_entry s' t (field r ''id'') = Inr (Obj r)"
    by (simp add: get_entry_def get_from_key_def kv_get_def)
next
  assume "\<forall>b \<in> set (under [KStr ''__indexes_for'', KStr t] s).
             to_keypart (snd b) \<noteq> None \<and>
             to_keypart (field_named ([''id'' \<mapsto> Str ident, ''date_created'' \<mapsto> Date now] ++ val) (snd b))
               \<noteq> None"
  from create_entry_total[OF assms this]
  show "\<exists>s2 r2. create_entry s t val ident now = (s2, Inr r2)" .
qed

lemma indexed1_eq: "indexed1 =
  [([KStr ''__indexes'', KStr ''users'', KStr ''email'', KStr ''a@a'', KStr ''01A''], Str ''01A''),
   ([KStr ''__indexes_for'', KStr ''users'', KStr ''email''], Str ''email''),
   ([KStr ''users'', KStr ''01A''],
      Obj [''id'' \<mapsto> Str ''01A'', ''date_created'' \<mapsto> Date 5, ''email'' \<mapsto> Str ''a@a''])]"
  by (simp add: indexed1_def users1_def create_index_def get_from_key_def kv_get_def kv_set_def key_less_def
        get_all_entries_def kv_list_def under_def field_def)

lemma create_get_roundtrip_witness:
  "[''email'' \<mapsto> Str ''b@b''] ''id'' = None \<and>
   (\<exists>s2 r2. create_entry indexed1 ''users'' [''email'' \<mapsto> Str ''b@b''] ''01B'' 7 = (s2, Inr r2)) \<and>
   create_entry indexed1 ''users'' [''email'' \<mapsto> Str ''b@b''] ''01B'' 7
     = (fst (create_entry indexed1 ''users'' [''email'' \<mapsto> Str ''b@b''] ''01B'' 7),
        Inr ([''id'' \<mapsto> Str ''01B'', ''date_created'' \<mapsto> Date 7] ++ [''email'' \<mapsto> Str ''b@b''])) \<and>
   get_entry (fst (create_entry indexed1 ''users'' [''email'' \<mapsto> Str ''b@b''] ''01B'' 7)) ''users''
       (field ([''id'' \<mapsto> Str ''01B'', ''date_created'' \<mapsto> Date 7] ++ [''email'' \<mapsto> Str ''b@b'']) ''id'')
     = Inr (Obj ([''id'' \<mapsto> Str ''01B'', ''date_created'' \<mapsto> Date 7] ++ [''email'' \<mapsto> Str ''b@b'']))"
proof -
  let ?v = "[''email'' \<mapsto> Str ''b@b'']"
  let ?r = "[''id'' \<mapsto> Str ''01B'', ''date_created'' \<mapsto> Date 7] ++ ?v"
  have h0: "?v ''id'' = None" by simp
  have h2: "\<forall>b \<in> set (under [KStr ''__indexes_for'', KStr ''users''] indexed1).
      to_keypart (snd b) \<noteq> None \<and> to_keypart (field_named ?r (snd b)) \<noteq> None"
    by (simp add: indexed1_eq under_def field_def)
  note th = create_get_roundtrip[of ?v indexed1 "''users''" "''01B''" 7, OF h0]
  from th h2 obtain s2 r2 where c: "create_entry indexed1 ''users'' ?v ''01B'' 7 = (s2, Inr r2)"
    by blast
  from create_entry_result[OF c] c
  have h1: "create_entry indexed1 ''users'' ?v ''01B'' 7
     = (fst (create_entry indexed1 ''users'' ?v ''01B'' 7), Inr ?r)" by simp
  from create_get_roundtrip[of ?v indexed1 "''users''" "''01B''" 7
         "fst (create_entry indexed1 ''users'' ?v ''01B'' 7)" ?r, OF h0] h0 h1 c
  show ?thesis by blast
qed

section \<open>Updating a record\<close>

lemma update_entry_unset:
  "to_keypart (field ent ''id'') = None \<Longrightarrow> update_entry s t ent = (s, Inl TypeError)"
  by (simp add: update_entry_def kv_set_def)

lemma update_entry_steps:
  "to_keypart (field ent ''id'') = Some ip \<Longrightarrow>
   update_entry s t ent = create_indexes_for_entry (put_raw s [KStr t, ip] (Obj ent)) t ent"
  by (simp add: update_entry_def kv_set_def)

lemma update_entry_stores:
  assumes "to_keypart (field ent ''id'') = Some ip"
  shows "map_of (fst (update_entry s t ent)) [KStr t, ip] = Some (Obj ent)"
proof -
  let ?s1 = "put_raw s [KStr t, ip] (Obj ent)"
  obtain s2 r2 where ci: "create_indexes_for_entry ?s1 t ent = (s2, r2)"
    by (cases "create_indexes_for_entry ?s1 t ent")
  from create_indexes_for_entry_changes[OF ci, of "[KStr t, ip]"] record_key_not_index ci
  show ?thesis by (simp add: update_entry_steps[OF assms] map_of_put_raw)
qed

lemma update_entry_frame:
  assumes "to_keypart (field ent ''id'') = Some ip" and "[KStr t', jp] \<noteq> [KStr t, ip]"
  shows "map_of (fst (update_entry s t ent)) [KStr t', jp] = map_of s [KStr t', jp]"
proof -
  let ?s1 = "put_raw s [KStr t, ip] (Obj ent)"
  obtain s2 r2 where ci: "create_indexes_for_entry ?s1 t ent = (s2, r2)"
    by (cases "create_indexes_for_entry ?s1 t ent")
  from create_indexes_for_entry_changes[OF ci, of "[KStr t', jp]"] record_key_not_index
  have "map_of s2 [KStr t', jp] = map_of ?s1 [KStr t', jp]" by blast
  also from assms(2) have "\<dots> = map_of s [KStr t', jp]" by (auto simp: map_of_put_raw)
  finally show ?thesis using ci by (simp add: update_entry_steps[OF assms(1)])
qed

lemma kv_set_error: "kv_set s key v = Inl e \<Longrightarrow> e = TypeError"
  by (auto simp: kv_set_def split: option.splits)

lemma index_loop_error: "index_loop s t val L = (s', Inl e) \<Longrightarrow> e = TypeError"
proof (induction L arbitrary: s)
  case Nil
  then show ?case by simp
next
  case (Cons b L)
  show ?case
  proof (cases "kv_set s [Str ''__indexes'', Str t, snd b, field_named val (snd b), field val ''id''] (field val ''id'')")
    case (Inl e')
    with Cons.prems kv_set_error[OF Inl] show ?thesis by simp
  next
    case (Inr s1)
    with Cons.prems have "index_loop s1 t val L = (s', Inl e)" by simp
    from Cons.IH[OF this] show ?thesis .
  qed
qed

lemma update_entry_error: "snd (update_entry s t ent) \<noteq> Inl NotFound"
proof (cases "to_keypart (field ent ''id'')")
  case None
  from update_entry_unset[OF this] show ?thesis by simp
next
  case (Some ip)
  let ?s1 = "put_raw s [KStr t, ip] (Obj ent)"
  obtain s' r where l: "index_loop ?s1 t ent (under [KStr ''__indexes_for'', KStr t] ?s1) = (s', r)"
    by (cases "index_loop ?s1 t ent (under [KStr ''__indexes_for'', KStr t] ?s1)")
  then have u: "update_entry s t ent = (s', r)"
    by (simp add: update_entry_steps[OF Some] create_indexes_for_entry_def kv_list_def)
  show ?thesis
  proof (cases r)
    case (Inl e)
    with l index_loop_error have "e = TypeError" by blast
    with u Inl show ?thesis by simp
  next
    case (Inr x)
    with u show ?thesis by simp
  qed
qed

lemma update_entry_total:
  assumes "to_keypart (field ent ''id'') = Some ip"
    and "\<forall>b \<in> set (under [KStr ''__indexes_for'', KStr t] s).
           to_keypart (snd b) \<noteq> None \<and> to_keypart (field_named ent (snd b)) \<noteq> None"
  shows "snd (update_entry s t ent) = Inr ()"
proof -
  let ?s1 = "put_raw s [KStr t, ip] (Obj ent)"
  have "\<not> has_prefix [KStr ''__indexes_for'', KStr t] [KStr t, ip]" by simp
  from under_put_raw_other[OF this]
  have u: "under [KStr ''__indexes_for'', KStr t] ?s1 = under [KStr ''__indexes_for'', KStr t] s" .
  from assms(1) have "to_keypart (field ent ''id'') \<noteq> None" by simp
  from index_loop_total[OF this, of "under [KStr ''__indexes_for'', KStr t] s" ?s1 t] assms(2)
  obtain s' where "index_loop ?s1 t ent (under [KStr ''__indexes_for'', KStr t] s) = (s', Inr ())"
    by blast
  with u show ?thesis
    by (simp add: update_entry_steps[OF assms(1)] create_indexes_for_entry_def kv_list_def)
qed

lemma update_entry_indexes:
  assumes "to_keypart (field ent ''id'') = Some ip"
    and "snd (update_entry s t ent) = Inr ()"
    and "map_of s [KStr ''__indexes_for'', KStr t, KStr f] = Some (Str f)"
  shows "\<exists>kp. to_keypart (field ent f) = Some kp \<and>
           kv_get (fst (update_entry s t ent))
             [Str ''__indexes'', Str t, Str f, field ent f, field ent ''id''] = Inr (Some (field ent ''id''))"
proof -
  let ?s1 = "put_raw s [KStr t, ip] (Obj ent)"
  obtain s' where ci: "create_indexes_for_entry ?s1 t ent = (s', Inr ())"
    using assms(2) update_entry_steps[OF assms(1), of s t]
    by (cases "create_indexes_for_entry ?s1 t ent") auto
  from assms(3) have "map_of ?s1 [KStr ''__indexes_for'', KStr t, KStr f] = Some (Str f)"
    by (simp add: map_of_put_raw)
  from create_indexes_for_entry_post[OF ci this] assms(1) obtain kp where
    kp: "to_keypart (field ent f) = Some kp"
    and e: "map_of s' [KStr ''__indexes'', KStr t, KStr f, kp, ip] = Some (of_keypart ip)"
    by auto
  from of_to_keypart[OF assms(1)] e kp assms(1) ci show ?thesis
    by (simp add: update_entry_steps[OF assms(1)] kv_get_def)
qed

text \<open>
  C3 fails as stated: \<open>update_entry\<close> makes no existence check. On the empty store, an
  update whose \<open>id\<close> references no record returns normally and leaves the record stored.
\<close>

theorem update_entry_fresh_id_counterexample:
  "update_entry [] ''users'' [''id'' \<mapsto> Str ''01A'', ''name'' \<mapsto> Str ''a'']
     = ([([KStr ''users'', KStr ''01A''], Obj [''id'' \<mapsto> Str ''01A'', ''name'' \<mapsto> Str ''a''])], Inr ())"
  by (simp add: update_entry_def kv_set_def field_def create_indexes_for_entry_def kv_list_def under_def)

text \<open>
  C3, amended. \<open>update_entry\<close> makes no existence check and never fails with
  \<open>NotFound\<close>. When the \<open>id\<close> of the partial record is unset (or is no key part), it
  throws the store's \<open>TypeError\<close> and leaves the store unchanged. When the \<open>id\<close> is a key
  part, whether or not a record exists under it, the field set is persisted at
  (table, id): a following \<open>get_entry(table, id)\<close> returns it, whatever the outcome of the
  index step. The call returns normally when every registry entry of the table names a
  field whose value in the record is a key part; and when it returns normally, every
  registered index field \<open>f\<close> of the table has its entry
  \<open>("__indexes", table, f, entry[f], id)\<close> with value \<open>id\<close>.
\<close>

theorem update_entry_upsert:
  "snd (update_entry s t ent) \<noteq> Inl NotFound \<and>
   (to_keypart (field ent ''id'') = None \<longrightarrow> update_entry s t ent = (s, Inl TypeError)) \<and>
   (to_keypart (field ent ''id'') = Some ip \<longrightarrow>
      get_entry (fst (update_entry s t ent)) t (field ent ''id'') = Inr (Obj ent) \<and>
      ((\<forall>b \<in> set (under [KStr ''__indexes_for'', KStr t] s).
          to_keypart (snd b) \<noteq> None \<and> to_keypart (field_named ent (snd b)) \<noteq> None) \<longrightarrow>
       snd (update_entry s t ent) = Inr ()) \<and>
      (snd (update_entry s t ent) = Inr () \<and>
       map_of s [KStr ''__indexes_for'', KStr t, KStr f] = Some (Str f) \<longrightarrow>
       (\<exists>kp. to_keypart (field ent f) = Some kp \<and>
          kv_get (fst (update_entry s t ent))
            [Str ''__indexes'', Str t, Str f, field ent f, field ent ''id'']
          = Inr (Some (field ent ''id'')))))"
proof (intro conjI impI)
  show "snd (update_entry s t ent) \<noteq> Inl NotFound" by (rule update_entry_error)
next
  assume "to_keypart (field ent ''id'') = None"
  then show "update_entry s t ent = (s, Inl TypeError)" by (rule update_entry_unset)
next
  assume i: "to_keypart (field ent ''id'') = Some ip"
  from update_entry_stores[OF i, of s t] i
  show "get_entry (fst (update_entry s t ent)) t (field ent ''id'') = Inr (Obj ent)"
    by (simp add: get_entry_def get_from_key_def kv_get_def)
next
  assume "to_keypart (field ent ''id'') = Some ip"
    and "\<forall>b \<in> set (under [KStr ''__indexes_for'', KStr t] s).
          to_keypart (snd b) \<noteq> None \<and> to_keypart (field_named ent (snd b)) \<noteq> None"
  then show "snd (update_entry s t ent) = Inr ()" by (rule update_entry_total)
next
  assume i: "to_keypart (field ent ''id'') = Some ip"
    and a: "snd (update_entry s t ent) = Inr () \<and>
       map_of s [KStr ''__indexes_for'', KStr t, KStr f] = Some (Str f)"
  from update_entry_indexes[OF i] a
  show "\<exists>kp. to_keypart (field ent f) = Some kp \<and>
          kv_get (fst (update_entry s t ent))
            [Str ''__indexes'', Str t, Str f, field ent f, field ent ''id'']
          = Inr (Some (field ent ''id''))" by blast
qed

theorem update_entry_upsert_witness:
  "to_keypart (field [''name'' \<mapsto> Str ''a''] ''id'') = None \<and>
   update_entry indexed1 ''users'' [''name'' \<mapsto> Str ''a''] = (indexed1, Inl TypeError) \<and>
   to_keypart (field [''id'' \<mapsto> Str ''01B'', ''email'' \<mapsto> Str ''c@c''] ''id'') = Some (KStr ''01B'') \<and>
   get_entry (fst (update_entry indexed1 ''users'' [''id'' \<mapsto> Str ''01B'', ''email'' \<mapsto> Str ''c@c'']))
      ''users'' (field [''id'' \<mapsto> Str ''01B'', ''email'' \<mapsto> Str ''c@c''] ''id'')
     = Inr (Obj [''id'' \<mapsto> Str ''01B'', ''email'' \<mapsto> Str ''c@c'']) \<and>
   snd (update_entry indexed1 ''users'' [''id'' \<mapsto> Str ''01B'', ''email'' \<mapsto> Str ''c@c'']) = Inr () \<and>
   map_of indexed1 [KStr ''__indexes_for'', KStr ''users'', KStr ''email''] = Some (Str ''email'') \<and>
   kv_get (fst (update_entry indexed1 ''users'' [''id'' \<mapsto> Str ''01B'', ''email'' \<mapsto> Str ''c@c'']))
      [Str ''__indexes'', Str ''users'', Str ''email'',
       field [''id'' \<mapsto> Str ''01B'', ''email'' \<mapsto> Str ''c@c''] ''email'',
       field [''id'' \<mapsto> Str ''01B'', ''email'' \<mapsto> Str ''c@c''] ''id'']
     = Inr (Some (field [''id'' \<mapsto> Str ''01B'', ''email'' \<mapsto> Str ''c@c''] ''id''))"
proof -
  let ?e = "[''id'' \<mapsto> Str ''01B'', ''email'' \<mapsto> Str ''c@c'']"
  have h1: "to_keypart (field [''name'' \<mapsto> Str ''a''] ''id'') = None" by (simp add: field_def)
  have h2: "to_keypart (field ?e ''id'') = Some (KStr ''01B'')" by (simp add: field_def)
  have h3: "\<forall>b \<in> set (under [KStr ''__indexes_for'', KStr ''users''] indexed1).
          to_keypart (snd b) \<noteq> None \<and> to_keypart (field_named ?e (snd b)) \<noteq> None"
    by (simp add: indexed1_eq under_def field_def)
  have h4: "map_of indexed1 [KStr ''__indexes_for'', KStr ''users'', KStr ''email''] = Some (Str ''email'')"
    by (simp add: indexed1_eq)
  note a = update_entry_upsert[of indexed1 "''users''" "[''name'' \<mapsto> Str ''a'']"]
  note b = update_entry_upsert[of indexed1 "''users''" ?e "KStr ''01B''" "''email''"]
  from a h1 have c1: "update_entry indexed1 ''users'' [''name'' \<mapsto> Str ''a''] = (indexed1, Inl TypeError)"
    by blast
  from b h2 have c2: "get_entry (fst (update_entry indexed1 ''users'' ?e)) ''users'' (field ?e ''id'')
      = Inr (Obj ?e)" by blast
  from b h2 h3 have c3: "snd (update_entry indexed1 ''users'' ?e) = Inr ()" by blast
  from b h2 c3 h4 have c4: "kv_get (fst (update_entry indexed1 ''users'' ?e))
      [Str ''__indexes'', Str ''users'', Str ''email'', field ?e ''email'', field ?e ''id'']
     = Inr (Some (field ?e ''id''))" by blast
  from h1 c1 h2 c2 c3 h4 c4 show ?thesis by blast
qed

text \<open>
  C6 fails as stated: the update stores the partial record in place of the old one, so a
  field the partial record omits is lost. Here \<open>date_created\<close> is gone after the update.
\<close>

theorem update_entry_drops_date_created_counterexample:
  "get_entry users1 ''users'' (Str ''01A'')
     = Inr (Obj [''id'' \<mapsto> Str ''01A'', ''date_created'' \<mapsto> Date 5, ''email'' \<mapsto> Str ''a@a'']) \<and>
   get_entry (fst (update_entry users1 ''users'' [''id'' \<mapsto> Str ''01A'', ''email'' \<mapsto> Str ''b@b'']))
       ''users'' (Str ''01A'')
     = Inr (Obj [''id'' \<mapsto> Str ''01A'', ''email'' \<mapsto> Str ''b@b'']) \<and>
   field [''id'' \<mapsto> Str ''01A'', ''email'' \<mapsto> Str ''b@b''] ''date_created'' = Undefined"
  by (simp add: users1_def update_entry_def kv_set_def field_def create_indexes_for_entry_def
      kv_list_def under_def get_entry_def get_from_key_def kv_get_def)

text \<open>
  C6, amended. After \<open>update_entry(table, entry)\<close> with an \<open>id\<close> that is a key part,
  whether the index update returns or throws, \<open>get_entry(table, entry.id)\<close> returns
  exactly \<open>entry\<close>: the \<open>id\<close> is the one passed, and \<open>date_created\<close> and every other
  field are kept only as far as \<open>entry\<close> carries them. Every other record reads as before.
\<close>

theorem update_entry_replaces:
  assumes "to_keypart (field ent ''id'') = Some ip"
  shows "get_entry (fst (update_entry s t ent)) t (field ent ''id'') = Inr (Obj ent) \<and>
         (to_keypart j = Some jp \<and> (t', jp) \<noteq> (t, ip) \<longrightarrow>
            get_entry (fst (update_entry s t ent)) t' j = get_entry s t' j)"
proof (intro conjI impI)
  from update_entry_stores[OF assms, of s t] assms
  show "get_entry (fst (update_entry s t ent)) t (field ent ''id'') = Inr (Obj ent)"
    by (simp add: get_entry_def get_from_key_def kv_get_def)
next
  assume a: "to_keypart j = Some jp \<and> (t', jp) \<noteq> (t, ip)"
  then have "[KStr t', jp] \<noteq> [KStr t, ip]" by auto
  from update_entry_frame[OF assms this, of s] a
  show "get_entry (fst (update_entry s t ent)) t' j = get_entry s t' j"
    by (simp add: get_entry_def get_from_key_def kv_get_def)
qed

theorem update_entry_replaces_witness:
  "to_keypart (field [''id'' \<mapsto> Str ''01A'', ''email'' \<mapsto> Str ''c@c''] ''id'') = Some (KStr ''01A'') \<and>
   get_entry (fst (update_entry users2 ''users'' [''id'' \<mapsto> Str ''01A'', ''email'' \<mapsto> Str ''c@c'']))
       ''users'' (field [''id'' \<mapsto> Str ''01A'', ''email'' \<mapsto> Str ''c@c''] ''id'')
     = Inr (Obj [''id'' \<mapsto> Str ''01A'', ''email'' \<mapsto> Str ''c@c'']) \<and>
   to_keypart (Str ''01B'') = Some (KStr ''01B'') \<and> (''users'', KStr ''01B'') \<noteq> (''users'', KStr ''01A'') \<and>
   get_entry (fst (update_entry users2 ''users'' [''id'' \<mapsto> Str ''01A'', ''email'' \<mapsto> Str ''c@c'']))
       ''users'' (Str ''01B'')
     = get_entry users2 ''users'' (Str ''01B'')"
proof -
  let ?e = "[''id'' \<mapsto> Str ''01A'', ''email'' \<mapsto> Str ''c@c'']"
  have h1: "to_keypart (field ?e ''id'') = Some (KStr ''01A'')" by (simp add: field_def)
  have h2: "to_keypart (Str ''01B'') = Some (KStr ''01B'') \<and> (''users'', KStr ''01B'') \<noteq> (''users'', KStr ''01A'')"
    by simp
  from update_entry_replaces[OF h1, of users2 "''users''" "Str ''01B''" "KStr ''01B''" "''users''"] h1 h2
  show ?thesis by blast
qed

section \<open>Writing index entries for a record\<close>

lemma indexed2_eq: "indexed2 =
  [([KStr ''__indexes'', KStr ''users'', KStr ''email'', KStr ''a@a'', KStr ''01A''], Str ''01A''),
   ([KStr ''__indexes_for'', KStr ''users'', KStr ''age''], Str ''age''),
   ([KStr ''__indexes_for'', KStr ''users'', KStr ''email''], Str ''email''),
   ([KStr ''users'', KStr ''01A''],
      Obj [''id'' \<mapsto> Str ''01A'', ''date_created'' \<mapsto> Date 5, ''email'' \<mapsto> Str ''a@a''])]"
  by (simp add: indexed2_def users1_def create_index_def get_from_key_def kv_get_def kv_set_def key_less_def
        get_all_entries_def kv_list_def under_def field_def)

text \<open>
  C4 at a failing input. The table has indexes on \<open>age\<close> and \<open>email\<close>; the partial record
  has an \<open>email\<close> and no \<open>age\<close>. The loop of \<open>create_indexes_for_entry\<close> reaches \<open>age\<close>
  first, builds a key with \<open>undefined\<close> in it and throws: the record is stored, and the
  index entry for its \<open>email\<close> is never written.
\<close>

theorem update_entry_absent_field_aborts:
  "snd (update_entry indexed2 ''users'' [''id'' \<mapsto> Str ''01A'', ''email'' \<mapsto> Str ''b@b'']) = Inl TypeError \<and>
   get_entry (fst (update_entry indexed2 ''users'' [''id'' \<mapsto> Str ''01A'', ''email'' \<mapsto> Str ''b@b'']))
       ''users'' (Str ''01A'')
     = Inr (Obj [''id'' \<mapsto> Str ''01A'', ''email'' \<mapsto> Str ''b@b'']) \<and>
   kv_get (fst (update_entry indexed2 ''users'' [''id'' \<mapsto> Str ''01A'', ''email'' \<mapsto> Str ''b@b'']))
       [Str ''__indexes'', Str ''users'', Str ''email'', Str ''b@b'', Str ''01A'']
     = Inr None"
  by (simp add: indexed2_eq update_entry_def kv_set_def field_def create_indexes_for_entry_def
      kv_list_def under_def get_entry_def get_from_key_def kv_get_def key_less_def)

text \<open>
  C8 at a failing input. The table has indexes on \<open>age\<close> and \<open>email\<close>; the field set has
  an \<open>email\<close> and no \<open>age\<close> (an optional field of the schema). \<open>create_entry\<close> stores
  the record, then the loop of \<open>create_indexes_for_entry\<close> throws at \<open>age\<close>: the call
  returns no record, although the record can be read, and the entry for \<open>email\<close> is
  missing. It is the defect of C4, the missing presence check.
\<close>

theorem create_entry_absent_field_throws:
  "snd (create_entry indexed2 ''users'' [''email'' \<mapsto> Str ''b@b''] ''01B'' 7) = Inl TypeError \<and>
   get_entry (fst (create_entry indexed2 ''users'' [''email'' \<mapsto> Str ''b@b''] ''01B'' 7))
       ''users'' (Str ''01B'')
     = Inr (Obj [''id'' \<mapsto> Str ''01B'', ''date_created'' \<mapsto> Date 7, ''email'' \<mapsto> Str ''b@b'']) \<and>
   kv_get (fst (create_entry indexed2 ''users'' [''email'' \<mapsto> Str ''b@b''] ''01B'' 7))
       [Str ''__indexes'', Str ''users'', Str ''email'', Str ''b@b'', Str ''01B'']
     = Inr None"
  by (simp add: indexed2_eq create_entry_def Let_def kv_set_def field_def create_indexes_for_entry_def
      kv_list_def under_def get_entry_def get_from_key_def kv_get_def key_less_def)

section \<open>Lookup through an index\<close>

lemma dangling_eq: "dangling =
  [([KStr ''__indexes'', KStr ''users'', KStr ''email'', KStr ''a@a'', KStr ''00Z''], Str ''00Z''),
   ([KStr ''__indexes'', KStr ''users'', KStr ''email'', KStr ''a@a'', KStr ''01A''], Str ''01A''),
   ([KStr ''__indexes_for'', KStr ''users'', KStr ''email''], Str ''email''),
   ([KStr ''users'', KStr ''01A''],
      Obj [''id'' \<mapsto> Str ''01A'', ''date_created'' \<mapsto> Date 5, ''email'' \<mapsto> Str ''a@a''])]"
  by (simp add: dangling_def indexed1_eq key_less_def)

text \<open>
  C5 fails as stated: \<open>get_entries_by_index\<close> does not skip an index entry whose record is
  missing; the result holds \<open>undefined\<close> in its place.
\<close>

theorem get_entries_by_index_dangling_counterexample:
  "get_entries_by_index dangling ''users'' ''email'' (Str ''a@a'')
     = Inr [Undefined, Obj [''id'' \<mapsto> Str ''01A'', ''date_created'' \<mapsto> Date 5, ''email'' \<mapsto> Str ''a@a'']]"
  by (simp add: dangling_eq get_entries_by_index_def get_all_from_key_def kv_list_def under_def
      get_entry_def get_from_key_def kv_get_def)

text \<open>
  Without any matching index entry, \<open>entries[0]?.value\<close> is \<open>undefined\<close> and
  \<open>get_entry_by_index\<close> reads the key \<open>[table, undefined]\<close>, which the store rejects.
\<close>

lemma get_entry_by_index_no_match:
  "get_entry_by_index indexed1 ''users'' ''email'' (Str ''b@a'') = Inl TypeError"
  by (simp add: indexed1_eq get_entry_by_index_def get_all_from_key_def kv_list_def under_def
      get_entry_def get_from_key_def kv_get_def)

lemma get_entry_missing:
  "to_keypart x = Some xp \<Longrightarrow> map_of s [KStr t, xp] = None \<Longrightarrow> get_entry s t x = Inr Undefined"
  by (simp add: get_entry_def get_from_key_def kv_get_def)

lemma deref_all_each:
  "deref_all s t es = Inr rs \<Longrightarrow> list_all2 (\<lambda>e r. get_entry s t (snd e) = Inr r) es rs"
proof (induction es arbitrary: rs)
  case Nil
  then show ?case by simp
next
  case (Cons e es)
  from Cons.prems obtain v vs where v: "get_entry s t (snd e) = Inr v"
    and vs: "deref_all s t es = Inr vs" and rs: "rs = v # vs"
    by (auto split: sum.splits)
  from Cons.IH[OF vs] v rs show ?case by simp
qed

lemma get_entry_total: "to_keypart x \<noteq> None \<Longrightarrow> \<exists>r. get_entry s t x = Inr r"
  by (auto simp: get_entry_def get_from_key_def kv_get_def split: option.splits)

lemma deref_all_total:
  "\<forall>e \<in> set es. to_keypart (snd e) \<noteq> None \<Longrightarrow> \<exists>rs. deref_all s t es = Inr rs"
proof (induction es)
  case Nil
  then show ?case by simp
next
  case (Cons e es)
  then obtain rs where "deref_all s t es = Inr rs" by auto
  moreover from Cons.prems get_entry_total[of "snd e" s t] obtain r where "get_entry s t (snd e) = Inr r" by auto
  ultimately show ?case by simp
qed

text \<open>
  C5, amended. For a lookup value that is a key part: \<open>get_entry_by_index\<close> returns absent
  (\<open>undefined\<close>, no error) when the first matching index entry points to a missing record;
  \<open>get_entries_by_index\<close> dereferences every matching entry through \<open>get_entry\<close> and
  returns one result per entry, in the order of the entries, where an entry whose record
  is missing yields \<open>undefined\<close>; it returns whenever the values of the matching entries
  are key parts.
\<close>

theorem index_lookup_dangling:
  assumes "to_keypart v = Some vp"
  shows "(under [KStr ''__indexes'', KStr t, KStr f, vp] s = e # es \<and>
            to_keypart (snd e) = Some xp \<and> map_of s [KStr t, xp] = None \<longrightarrow>
          get_entry_by_index s t f v = Inr Undefined) \<and>
         (get_entries_by_index s t f v = Inr rs \<longrightarrow>
          list_all2 (\<lambda>e r. get_entry s t (snd e) = Inr r)
            (under [KStr ''__indexes'', KStr t, KStr f, vp] s) rs) \<and>
         (to_keypart x = Some xp \<and> map_of s [KStr t, xp] = None \<longrightarrow>
          get_entry s t x = Inr Undefined) \<and>
         ((\<forall>e \<in> set (under [KStr ''__indexes'', KStr t, KStr f, vp] s). to_keypart (snd e) \<noteq> None) \<longrightarrow>
          (\<exists>rs. get_entries_by_index s t f v = Inr rs))"
proof (intro conjI impI)
  assume a: "under [KStr ''__indexes'', KStr t, KStr f, vp] s = e # es \<and>
            to_keypart (snd e) = Some xp \<and> map_of s [KStr t, xp] = None"
  with assms have "get_entry_by_index s t f v = get_entry s t (snd e)"
    by (simp add: get_entry_by_index_def get_all_from_key_def kv_list_def)
  with a get_entry_missing[of "snd e" xp s t]
  show "get_entry_by_index s t f v = Inr Undefined" by simp
next
  assume "get_entries_by_index s t f v = Inr rs"
  with assms have "deref_all s t (under [KStr ''__indexes'', KStr t, KStr f, vp] s) = Inr rs"
    by (simp add: get_entries_by_index_def get_all_from_key_def kv_list_def)
  then show "list_all2 (\<lambda>e r. get_entry s t (snd e) = Inr r)
            (under [KStr ''__indexes'', KStr t, KStr f, vp] s) rs"
    by (rule deref_all_each)
next
  assume "to_keypart x = Some xp \<and> map_of s [KStr t, xp] = None"
  then show "get_entry s t x = Inr Undefined" by (simp add: get_entry_missing)
next
  assume "\<forall>e \<in> set (under [KStr ''__indexes'', KStr t, KStr f, vp] s). to_keypart (snd e) \<noteq> None"
  from deref_all_total[OF this, of s t] assms
  show "\<exists>rs. get_entries_by_index s t f v = Inr rs"
    by (simp add: get_entries_by_index_def get_all_from_key_def kv_list_def)
qed

theorem index_lookup_dangling_witness:
  "to_keypart (Str ''a@a'') = Some (KStr ''a@a'') \<and>
   under [KStr ''__indexes'', KStr ''users'', KStr ''email'', KStr ''a@a''] dangling
     = ([KStr ''__indexes'', KStr ''users'', KStr ''email'', KStr ''a@a'', KStr ''00Z''], Str ''00Z'')
       # [([KStr ''__indexes'', KStr ''users'', KStr ''email'', KStr ''a@a'', KStr ''01A''], Str ''01A'')] \<and>
   to_keypart (Str ''00Z'') = Some (KStr ''00Z'') \<and>
   map_of dangling [KStr ''users'', KStr ''00Z''] = None \<and>
   get_entry_by_index dangling ''users'' ''email'' (Str ''a@a'') = Inr Undefined \<and>
   get_entry dangling ''users'' (Str ''00Z'') = Inr Undefined \<and>
   (\<exists>rs. get_entries_by_index dangling ''users'' ''email'' (Str ''a@a'') = Inr rs \<and>
      list_all2 (\<lambda>e r. get_entry dangling ''users'' (snd e) = Inr r)
        (under [KStr ''__indexes'', KStr ''users'', KStr ''email'', KStr ''a@a''] dangling) rs)"
proof -
  let ?p = "[KStr ''__indexes'', KStr ''users'', KStr ''email'', KStr ''a@a'']"
  let ?e = "([KStr ''__indexes'', KStr ''users'', KStr ''email'', KStr ''a@a'', KStr ''00Z''], Str ''00Z'')"
  let ?es = "[([KStr ''__indexes'', KStr ''users'', KStr ''email'', KStr ''a@a'', KStr ''01A''], Str ''01A'')]"
  have h0: "to_keypart (Str ''a@a'') = Some (KStr ''a@a'')" by simp
  have h1: "under ?p dangling = ?e # ?es" by (simp add: dangling_eq under_def)
  have h2: "to_keypart (Str ''00Z'') = Some (KStr ''00Z'')" by simp
  have h3: "map_of dangling [KStr ''users'', KStr ''00Z''] = None" by (simp add: dangling_eq)
  have h4: "\<forall>e \<in> set (under ?p dangling). to_keypart (snd e) \<noteq> None" by (simp add: h1)
  note th = index_lookup_dangling[OF h0, of "''users''" "''email''" dangling ?e ?es "KStr ''00Z''" _ "Str ''00Z''"]
  from th h1 h2 h3 have a: "get_entry_by_index dangling ''users'' ''email'' (Str ''a@a'') = Inr Undefined"
    by simp
  from th h2 h3 have b: "get_entry dangling ''users'' (Str ''00Z'') = Inr Undefined" by simp
  from th h4 obtain rs where rs: "get_entries_by_index dangling ''users'' ''email'' (Str ''a@a'') = Inr rs"
    by blast
  from index_lookup_dangling[OF h0, of "''users''" "''email''" dangling ?e ?es "KStr ''00Z''" rs "Str ''00Z''"] rs
  have c: "list_all2 (\<lambda>e r. get_entry dangling ''users'' (snd e) = Inr r) (under ?p dangling) rs"
    by blast
  from h0 h1 h2 h3 a b rs c show ?thesis by blast
qed

section \<open>The key order and listings\<close>

lemma part_code_inj: "part_code a = part_code b \<Longrightarrow> a = b"
  by (cases a; cases b) (auto split: if_splits)

lemma map_part_code_inj: "map part_code k = map part_code k' \<Longrightarrow> k = k'"
proof (induction k arbitrary: k')
  case Nil
  then show ?case by simp
next
  case (Cons a k)
  then show ?case by (cases k') (auto dest: part_code_inj)
qed

lemma key_less_irrefl: "\<not> key_less k k"
  by (simp add: key_less_def)

lemma key_less_trans: "key_less a b \<Longrightarrow> key_less b c \<Longrightarrow> key_less a c"
  by (auto simp: key_less_def)

lemma key_less_asym: "key_less a b \<Longrightarrow> \<not> key_less b a"
  by (auto simp: key_less_def)

lemma key_less_total: "k \<noteq> k' \<Longrightarrow> key_less k k' \<or> key_less k' k"
  using map_part_code_inj[of k k'] by (auto simp: key_less_def not_less_iff_gr_or_eq)

lemma set_put_raw: "set (put_raw s k v) \<subseteq> insert (k, v) (set s)"
  by (induction s) (auto split: if_splits)

lemma kv_ok_Cons: "kv_ok (b # s) \<longleftrightarrow> (\<forall>c \<in> set s. key_less (fst b) (fst c)) \<and> kv_ok s"
  by (auto simp: kv_ok_def)

lemma kv_ok_put_raw: "kv_ok s \<Longrightarrow> kv_ok (put_raw s k v)"
proof (induction s)
  case Nil
  then show ?case by (simp add: kv_ok_def)
next
  case (Cons b s)
  obtain k' v' where b: "b = (k', v')" by (cases b)
  from Cons.prems have below: "\<forall>c \<in> set s. key_less k' (fst c)" and ok: "kv_ok s"
    by (simp_all add: kv_ok_Cons b)
  show ?case
  proof (cases "k = k'")
    case True
    with below ok show ?thesis by (simp add: b kv_ok_Cons)
  next
    case ne: False
    show ?thesis
    proof (cases "key_less k k'")
      case True
      with below have "\<forall>c \<in> set s. key_less k (fst c)" by (blast intro: key_less_trans)
      with True ne below ok show ?thesis by (simp add: b kv_ok_Cons)
    next
      case False
      with ne key_less_total have lt: "key_less k' k" by blast
      have "\<forall>c \<in> set (put_raw s k v). key_less k' (fst c)"
      proof
        fix c assume "c \<in> set (put_raw s k v)"
        then have "c = (k, v) \<or> c \<in> set s" using set_put_raw[of s k v] by blast
        with lt below show "key_less k' (fst c)" by auto
      qed
      with False ne Cons.IH[OF ok] show ?thesis by (simp add: b kv_ok_Cons)
    qed
  qed
qed

lemma kv_ok_under: "kv_ok s \<Longrightarrow> sorted_wrt key_less (map fst (under p s))"
  unfolding kv_ok_def under_def
  by (induction s) auto

lemma set_under: "set (under p s) \<subseteq> set s"
  by (auto simp: under_def)

lemma under_put_raw_last:
  assumes "kv_ok s" and "has_prefix p k" and "\<forall>b \<in> set (under p s). key_less (fst b) k"
  shows "under p (put_raw s k v) = under p s @ [(k, v)]"
  using assms
proof (induction s)
  case Nil
  then show ?case by (simp add: under_def)
next
  case (Cons b s)
  obtain k' v' where b: "b = (k', v')" by (cases b)
  from Cons.prems(1) have below: "\<forall>c \<in> set s. key_less k' (fst c)" and ok: "kv_ok s"
    by (simp_all add: kv_ok_Cons b)
  from Cons.prems(3) have rest: "\<forall>b \<in> set (under p s). key_less (fst b) k"
    by (auto simp: under_def)
  show ?case
  proof (cases "k = k'")
    case True
    with Cons.prems(2,3) have "key_less k k" by (auto simp: under_def b)
    with key_less_irrefl show ?thesis by blast
  next
    case ne: False
    show ?thesis
    proof (cases "key_less k k'")
      case True
      have "under p (b # s) = []"
      proof (rule ccontr)
        assume "under p (b # s) \<noteq> []"
        then obtain c where c: "c \<in> set (under p (b # s))" by (cases "under p (b # s)") auto
        with Cons.prems(3) have 1: "key_less (fst c) k" by blast
        from c have "c = b \<or> c \<in> set s" by (auto simp: under_def split: if_splits)
        with below True b have "key_less k (fst c)" by (auto intro: key_less_trans)
        with 1 key_less_asym show False by blast
      qed
      with True ne Cons.prems(2) show ?thesis by (simp add: b under_def)
    next
      case False
      with ne Cons.IH[OF ok Cons.prems(2) rest] show ?thesis by (simp add: b under_def)
    qed
  qed
qed

lemma record_key_less: "key_less [KStr t, KStr i] [KStr t, KStr j] \<longleftrightarrow> i < j"
  by (simp add: key_less_def)

section \<open>Listing a table\<close>

lemma index_loop_under:
  "index_loop s t val L = (s', r) \<Longrightarrow> tb \<noteq> ''__indexes'' \<Longrightarrow> under [KStr tb] s' = under [KStr tb] s"
proof (induction L arbitrary: s)
  case Nil
  then show ?case by simp
next
  case (Cons sk L)
  show ?case
  proof (cases "kv_set s [Str ''__indexes'', Str t, snd sk, field_named val (snd sk), field val ''id''] (field val ''id'')")
    case (Inl e)
    with Cons.prems show ?thesis by simp
  next
    case (Inr s1)
    with Cons.prems have loop: "index_loop s1 t val L = (s', r)" by simp
    from Inr obtain k1 where enc: "encode_key [Str ''__indexes'', Str t, snd sk, field_named val (snd sk), field val ''id''] = Some k1"
      and s1: "s1 = put_raw s k1 (field val ''id'')"
      by (auto simp: kv_set_def split: option.splits)
    from encode_key_index[OF enc] Cons.prems(2) have "\<not> has_prefix [KStr tb] k1" by auto
    from under_put_raw_other[OF this] s1 have "under [KStr tb] s1 = under [KStr tb] s" by simp
    with Cons.IH[OF loop Cons.prems(2)] show ?thesis by simp
  qed
qed

lemma index_loop_kv_ok:
  "index_loop s t val L = (s', r) \<Longrightarrow> kv_ok s \<Longrightarrow> kv_ok s'"
proof (induction L arbitrary: s)
  case Nil
  then show ?case by simp
next
  case (Cons sk L)
  show ?case
  proof (cases "kv_set s [Str ''__indexes'', Str t, snd sk, field_named val (snd sk), field val ''id''] (field val ''id'')")
    case (Inl e)
    with Cons.prems show ?thesis by simp
  next
    case (Inr s1)
    with Cons.prems have loop: "index_loop s1 t val L = (s', r)" by simp
    from Inr Cons.prems(2) have "kv_ok s1"
      by (auto simp: kv_set_def kv_ok_put_raw split: option.splits)
    from Cons.IH[OF loop this] show ?thesis .
  qed
qed

lemma create_indexes_for_entry_under:
  "create_indexes_for_entry s t val = (s', r) \<Longrightarrow> tb \<noteq> ''__indexes'' \<Longrightarrow>
     under [KStr tb] s' = under [KStr tb] s"
  by (simp add: create_indexes_for_entry_def kv_list_def index_loop_under)

lemma create_indexes_for_entry_kv_ok:
  "create_indexes_for_entry s t val = (s', r) \<Longrightarrow> kv_ok s \<Longrightarrow> kv_ok s'"
  by (simp add: create_indexes_for_entry_def kv_list_def index_loop_kv_ok)

lemma create_entry_unfold:
  "fst (create_entry s t val ident now)
     = fst (create_indexes_for_entry (put_raw s [KStr t, KStr ident] (created (val, ident, now))) t
              ([''id'' \<mapsto> Str ident, ''date_created'' \<mapsto> Date now] ++ val))"
proof -
  let ?ent = "[''id'' \<mapsto> Str ident, ''date_created'' \<mapsto> Date now] ++ val"
  obtain s2 r2 where ci: "create_indexes_for_entry (put_raw s [KStr t, KStr ident] (Obj ?ent)) t ?ent = (s2, r2)"
    by (cases "create_indexes_for_entry (put_raw s [KStr t, KStr ident] (Obj ?ent)) t ?ent")
  then show ?thesis by (cases r2) (simp_all add: create_entry_def kv_set_def Let_def)
qed

lemma create_entry_under:
  assumes "t \<noteq> ''__indexes''"
  shows "under [KStr t] (fst (create_entry s t val ident now))
           = under [KStr t] (put_raw s [KStr t, KStr ident] (created (val, ident, now)))"
proof -
  let ?ent = "[''id'' \<mapsto> Str ident, ''date_created'' \<mapsto> Date now] ++ val"
  let ?s1 = "put_raw s [KStr t, KStr ident] (created (val, ident, now))"
  obtain s2 r2 where ci: "create_indexes_for_entry ?s1 t ?ent = (s2, r2)"
    by (cases "create_indexes_for_entry ?s1 t ?ent")
  from create_indexes_for_entry_under[OF ci assms] ci show ?thesis
    by (simp add: create_entry_unfold)
qed

lemma create_entry_kv_ok:
  assumes "kv_ok s"
  shows "kv_ok (fst (create_entry s t val ident now))"
proof -
  let ?ent = "[''id'' \<mapsto> Str ident, ''date_created'' \<mapsto> Date now] ++ val"
  let ?s1 = "put_raw s [KStr t, KStr ident] (created (val, ident, now))"
  obtain s2 r2 where ci: "create_indexes_for_entry ?s1 t ?ent = (s2, r2)"
    by (cases "create_indexes_for_entry ?s1 t ?ent")
  from create_indexes_for_entry_kv_ok[OF ci kv_ok_put_raw[OF assms]] ci show ?thesis
    by (simp add: create_entry_unfold)
qed

lemma creates_under:
  assumes "t \<noteq> ''__indexes''"
  shows "kv_ok s \<Longrightarrow> sorted_wrt (<) (map ident_of cs) \<Longrightarrow>
         \<forall>b \<in> set (under [KStr t] s). \<forall>c \<in> set cs. key_less (fst b) [KStr t, KStr (ident_of c)] \<Longrightarrow>
         under [KStr t] (creates s t cs)
           = under [KStr t] s @ map (\<lambda>c. ([KStr t, KStr (ident_of c)], created c)) cs"
proof (induction cs arbitrary: s)
  case Nil
  then show ?case by simp
next
  case (Cons c cs)
  obtain val ident now where c: "c = (val, ident, now)" by (cases c)
  let ?k = "[KStr t, KStr ident]"
  let ?s1 = "fst (create_entry s t val ident now)"
  have pre: "has_prefix [KStr t] ?k" by simp
  from Cons.prems(3) have "\<forall>b \<in> set (under [KStr t] s). key_less (fst b) ?k" by (simp add: c)
  from under_put_raw_last[OF Cons.prems(1) pre this]
  have u1: "under [KStr t] ?s1 = under [KStr t] s @ [(?k, created c)]"
    by (simp add: create_entry_under[OF assms] c)
  have ok1: "kv_ok ?s1" using Cons.prems(1) by (rule create_entry_kv_ok)
  from Cons.prems(2) have srt: "sorted_wrt (<) (map ident_of cs)"
    and lt: "\<forall>d \<in> set cs. ident < ident_of d" by (simp_all add: c)
  have "\<forall>b \<in> set (under [KStr t] ?s1). \<forall>d \<in> set cs. key_less (fst b) [KStr t, KStr (ident_of d)]"
  proof (intro ballI)
    fix b d assume b: "b \<in> set (under [KStr t] ?s1)" and d: "d \<in> set cs"
    from b u1 have "b \<in> set (under [KStr t] s) \<or> b = (?k, created c)" by auto
    then show "key_less (fst b) [KStr t, KStr (ident_of d)]"
    proof
      assume "b \<in> set (under [KStr t] s)"
      with Cons.prems(3) d show ?thesis by simp
    next
      assume "b = (?k, created c)"
      with lt d show ?thesis by (simp add: record_key_less)
    qed
  qed
  from Cons.IH[OF ok1 srt this] u1 show ?case by (simp add: c)
qed

text \<open>
  C7, amended. On a store in key order, \<open>get_all_entries\<close> returns the values of the
  bindings of the store under the table's prefix, all of them and no others (up to the
  limit), in ascending key order: the records of the table in primary-key order. For a
  table other than \<open>"__indexes"\<close> that holds no record, and a sequence of \<open>create_entry\<close>
  calls whose identifiers are strictly increasing (in byte order), the listing is the
  created records in creation order. The identifiers are those \<open>ulid()\<close> returns; nothing
  in the code makes them increase.
\<close>

theorem listing_order:
  assumes "kv_ok s"
  shows "get_all_entries s t limit = Inr (map snd (limited limit (under [KStr t] s))) \<and>
         sorted_wrt key_less (map fst (under [KStr t] s)) \<and>
         set (under [KStr t] s) = {b \<in> set s. has_prefix [KStr t] (fst b)} \<and>
         (t \<noteq> ''__indexes'' \<and> under [KStr t] s = [] \<and> sorted_wrt (<) (map ident_of cs) \<longrightarrow>
            get_all_entries (creates s t cs) t None = Inr (map created cs))"
proof (intro conjI impI)
  show "get_all_entries s t limit = Inr (map snd (limited limit (under [KStr t] s)))"
    by (simp add: get_all_entries_def kv_list_def)
next
  from assms show "sorted_wrt key_less (map fst (under [KStr t] s))" by (rule kv_ok_under)
next
  show "set (under [KStr t] s) = {b \<in> set s. has_prefix [KStr t] (fst b)}"
    by (auto simp: under_def)
next
  assume a: "t \<noteq> ''__indexes'' \<and> under [KStr t] s = [] \<and> sorted_wrt (<) (map ident_of cs)"
  then have "under [KStr t] (creates s t cs)
           = under [KStr t] s @ map (\<lambda>c. ([KStr t, KStr (ident_of c)], created c)) cs"
    using assms by (intro creates_under) simp_all
  with a show "get_all_entries (creates s t cs) t None = Inr (map created cs)"
    by (simp add: get_all_entries_def kv_list_def comp_def)
qed

text \<open>
  C7 fails as stated: when the second identifier is smaller than the first (two
  identifiers of the same millisecond differ in their random part only), the listing
  returns the second record first.
\<close>

theorem listing_order_counterexample:
  "get_all_entries
     (creates [] ''empty''
        [(Map.empty, ''01ARZ3NDEKTSV4RRFFQ69G5FAV'', 1), (Map.empty, ''01ARZ3NDEKTSV4RRFFQ69G5FAA'', 2)])
     ''empty'' None
   = Inr [created (Map.empty, ''01ARZ3NDEKTSV4RRFFQ69G5FAA'', 2),
          created (Map.empty, ''01ARZ3NDEKTSV4RRFFQ69G5FAV'', 1)]"
  by (simp add: create_entry_def Let_def kv_set_def key_less_def create_indexes_for_entry_def
      kv_list_def under_def get_all_entries_def)

lemma users2_eq: "users2 =
  [([KStr ''users'', KStr ''01A''],
      Obj [''id'' \<mapsto> Str ''01A'', ''date_created'' \<mapsto> Date 5, ''email'' \<mapsto> Str ''a@a'']),
   ([KStr ''users'', KStr ''01B''],
      Obj [''id'' \<mapsto> Str ''01B'', ''date_created'' \<mapsto> Date 7, ''email'' \<mapsto> Str ''b@b''])]"
  unfolding users2_def users1_def
  by (simp add: create_entry_def Let_def kv_set_def key_less_def
        create_indexes_for_entry_def kv_list_def under_def)

theorem listing_order_witness:
  "kv_ok [] \<and> ''empty'' \<noteq> ''__indexes'' \<and> under [KStr ''empty''] [] = [] \<and>
   sorted_wrt (<) (map ident_of [(Map.empty, ''01A'', 1), (Map.empty, ''01B'', 1), (Map.empty, ''01C'', 2)]) \<and>
   get_all_entries
     (creates [] ''empty'' [(Map.empty, ''01A'', 1), (Map.empty, ''01B'', 1), (Map.empty, ''01C'', 2)])
     ''empty'' None
   = Inr (map created [(Map.empty, ''01A'', 1), (Map.empty, ''01B'', 1), (Map.empty, ''01C'', 2)]) \<and>
   kv_ok users2 \<and>
   get_all_entries users2 ''users'' (Some 1) = Inr (map snd (limited (Some 1) (under [KStr ''users''] users2))) \<and>
   sorted_wrt key_less (map fst (under [KStr ''users''] users2)) \<and>
   get_all_entries users2 ''users'' (Some 1)
     = Inr [Obj [''id'' \<mapsto> Str ''01A'', ''date_created'' \<mapsto> Date 5, ''email'' \<mapsto> Str ''a@a'']]"
proof -
  let ?cs = "[(Map.empty, ''01A'', 1), (Map.empty, ''01B'', 1), (Map.empty, ''01C'', 2)]
               :: (entry \<times> string \<times> int) list"
  have h0: "kv_ok []" by (simp add: kv_ok_def)
  have h1: "''empty'' \<noteq> ''__indexes''" by simp
  have h2: "under [KStr ''empty''] [] = []" by (simp add: under_def)
  have h3: "sorted_wrt (<) (map ident_of ?cs)" by simp
  have h4: "kv_ok users2" by (simp add: users2_eq kv_ok_def key_less_def)
  have h5: "map snd (limited (Some 1) (under [KStr ''users''] users2))
     = [Obj [''id'' \<mapsto> Str ''01A'', ''date_created'' \<mapsto> Date 5, ''email'' \<mapsto> Str ''a@a'']]"
    by (simp add: users2_eq under_def)
  from listing_order[OF h0, of "''empty''" None ?cs] listing_order[OF h4, of "''users''" "Some 1"]
    h0 h1 h2 h3 h4 h5
  show ?thesis by metis
qed

section \<open>Index coverage over sequences of operations\<close>

lemma backfill_keeps:
  assumes "backfill s t f es = (s', r)"
    and "map_of s [KStr ''__indexes'', a, b, c, ip] = Some (of_keypart ip)"
  shows "map_of s' [KStr ''__indexes'', a, b, c, ip] = Some (of_keypart ip)"
  using backfill_changes[OF assms(1), of "[KStr ''__indexes'', a, b, c, ip]"] assms(2)
    index_shape_value[of t s' a b c ip] by auto

lemma backfill_post:
  assumes "backfill s t f es = (s', Inr ())" and "Obj r \<in> set es" and "truthy (field r f)"
  shows "\<exists>kp ip. to_keypart (field r f) = Some kp \<and> to_keypart (field r ''id'') = Some ip \<and>
           map_of s' [KStr ''__indexes'', KStr t, KStr f, kp, ip] = Some (of_keypart ip)"
  using assms(1,2)
proof (induction es arbitrary: s)
  case Nil
  then show ?case by simp
next
  case (Cons e es)
  show ?case
  proof (cases "e = Obj r")
    case True
    with Cons.prems(1) assms(3) obtain s1 where
      set: "kv_set s [Str ''__indexes'', Str t, Str f, field r f, field r ''id''] (field r ''id'') = Inr s1"
      and loop: "backfill s1 t f es = (s', Inr ())"
      by (auto split: sum.splits)
    from set obtain k1 where
      enc: "encode_key [Str ''__indexes'', Str t, Str f, field r f, field r ''id''] = Some k1"
      and s1: "s1 = put_raw s k1 (field r ''id'')"
      by (auto simp: kv_set_def split: option.splits)
    from enc obtain kp ip where kp: "to_keypart (field r f) = Some kp"
      and ip: "to_keypart (field r ''id'') = Some ip"
      and k1: "k1 = [KStr ''__indexes'', KStr t, KStr f, kp, ip]"
      by (auto split: option.splits)
    from s1 k1 of_to_keypart[OF ip] have "map_of s1 [KStr ''__indexes'', KStr t, KStr f, kp, ip] = Some (of_keypart ip)"
      by (simp add: map_of_put_raw)
    from backfill_keeps[OF loop this] kp ip show ?thesis by blast
  next
    case False
    with Cons.prems(2) have mem: "Obj r \<in> set es" by simp
    from Cons.prems(1) obtain s1 where "backfill s1 t f es = (s', Inr ())"
      by (auto split: sum.splits if_splits)
    from Cons.IH[OF this mem] show ?thesis .
  qed
qed

lemma index_only_marker:
  "index_only s s' \<Longrightarrow>
     map_of s' [KStr ''__indexes_for'', KStr t, KStr f] = map_of s [KStr ''__indexes_for'', KStr t, KStr f]"
  using marker_not_index by (auto simp: index_only_def)

lemma index_only_record:
  "index_only s s' \<Longrightarrow> map_of s' [KStr t, ip] = map_of s [KStr t, ip]"
  using record_key_not_index by (auto simp: index_only_def)

lemma index_only_keeps:
  assumes "index_only s s'"
    and "map_of s [KStr ''__indexes'', a, b, c, ip] = Some (of_keypart ip)"
  shows "map_of s' [KStr ''__indexes'', a, b, c, ip] = Some (of_keypart ip)"
proof -
  from assms(1) have "map_of s' [KStr ''__indexes'', a, b, c, ip] = map_of s [KStr ''__indexes'', a, b, c, ip]
      \<or> (\<exists>t. index_shape t s' [KStr ''__indexes'', a, b, c, ip])"
    by (simp add: index_only_def)
  with assms(2) index_shape_value show ?thesis by auto
qed

lemma index_only_markers_ok: "index_only s s' \<Longrightarrow> markers_ok s \<Longrightarrow> markers_ok s'"
  by (simp add: markers_ok_def index_only_marker)

lemma index_only_records_ok: "index_only s s' \<Longrightarrow> records_ok s \<Longrightarrow> records_ok s'"
  by (simp add: records_ok_def index_only_record)

lemma index_only_covered_at:
  assumes "index_only s s'" and "covered_at s t ip"
  shows "covered_at s' t ip"
  unfolding covered_at_def
proof (intro allI impI)
  fix r f
  assume "map_of s' [KStr t, ip] = Some (Obj r)"
    and "map_of s' [KStr ''__indexes_for'', KStr t, KStr f] \<noteq> None"
    and tr: "truthy (field r f)"
  with assms(1) have "map_of s [KStr t, ip] = Some (Obj r)"
    and "map_of s [KStr ''__indexes_for'', KStr t, KStr f] \<noteq> None"
    by (simp_all add: index_only_record index_only_marker)
  with assms(2) tr obtain kp where kp: "to_keypart (field r f) = Some kp"
    and "map_of s [KStr ''__indexes'', KStr t, KStr f, kp, ip] = Some (of_keypart ip)"
    unfolding covered_at_def by blast
  from index_only_keeps[OF assms(1) this(2)] kp
  show "\<exists>kp. to_keypart (field r f) = Some kp \<and>
          map_of s' [KStr ''__indexes'', KStr t, KStr f, kp, ip] = Some (of_keypart ip)" by blast
qed

lemma create_indexes_for_entry_index_only:
  "create_indexes_for_entry s t val = (s', r) \<Longrightarrow> index_only s s'"
  unfolding index_only_def using create_indexes_for_entry_changes by blast

lemma backfill_index_only: "backfill s t f es = (s', r) \<Longrightarrow> index_only s s'"
  unfolding index_only_def using backfill_changes by blast

text \<open>Storing a record and then updating the indexes: the common part of create and update.\<close>

lemma write_then_index:
  assumes m: "markers_ok s" and r: "records_ok s" and c: "covered s"
    and ip: "to_keypart (field ent ''id'') = Some ip"
    and ci: "create_indexes_for_entry (put_raw s [KStr t, ip] (Obj ent)) t ent = (s', Inr ())"
  shows "markers_ok s' \<and> records_ok s' \<and> covered s'"
proof -
  let ?s1 = "put_raw s [KStr t, ip] (Obj ent)"
  from ci have io: "index_only ?s1 s'" by (rule create_indexes_for_entry_index_only)
  have m1: "markers_ok ?s1" using m by (simp add: markers_ok_def map_of_put_raw)
  have r1: "records_ok ?s1" using r ip by (auto simp: records_ok_def map_of_put_raw)
  have "covered_at s' t' jp" for t' jp
  proof (cases "t' = t \<and> jp = ip")
    case False
    from c have "covered_at s t' jp" by (simp add: covered_def)
    with False have "covered_at ?s1 t' jp"
      by (auto simp: covered_at_def map_of_put_raw)
    with io show ?thesis by (rule index_only_covered_at)
  next
    case True
    show ?thesis unfolding covered_at_def
    proof (intro allI impI)
      fix r' f
      assume rec: "map_of s' [KStr t', jp] = Some (Obj r')"
        and reg: "map_of s' [KStr ''__indexes_for'', KStr t', KStr f] \<noteq> None"
      from rec True io have "r' = ent" by (simp add: index_only_record map_of_put_raw)
      from reg True io obtain v where v: "map_of ?s1 [KStr ''__indexes_for'', KStr t, KStr f] = Some v"
        by (auto simp: index_only_marker)
      with m1 have "map_of ?s1 [KStr ''__indexes_for'', KStr t, KStr f] = Some (Str f)"
        by (auto simp: markers_ok_def)
      from create_indexes_for_entry_post[OF ci this] ip True \<open>r' = ent\<close>
      show "\<exists>kp. to_keypart (field r' f) = Some kp \<and>
          map_of s' [KStr ''__indexes'', KStr t', KStr f, kp, jp] = Some (of_keypart jp)" by auto
    qed
  qed
  then have "covered s'" by (simp add: covered_def)
  with index_only_markers_ok[OF io m1] index_only_records_ok[OF io r1] show ?thesis by blast
qed

lemma declare_inv:
  assumes m: "markers_ok s" and r: "records_ok s" and c: "covered s"
    and ci: "create_index s t f = (s', Inr ())"
  shows "markers_ok s' \<and> records_ok s' \<and> covered s'"
proof (cases "map_of s [KStr ''__indexes_for'', KStr t, KStr f]")
  case (Some v)
  with ci have "s' = s" by (simp add: create_index_def get_from_key_def kv_get_def)
  with m r c show ?thesis by simp
next
  case None
  let ?s1 = "put_raw s [KStr ''__indexes_for'', KStr t, KStr f] (Str f)"
  let ?es = "map snd (under [KStr t] ?s1)"
  from None ci have bf: "backfill ?s1 t f ?es = (s', Inr ())"
    by (simp add: create_index_def get_from_key_def kv_get_def kv_set_def get_all_entries_def kv_list_def)
  then have io: "index_only ?s1 s'" by (rule backfill_index_only)
  have m1: "markers_ok ?s1" using m by (auto simp: markers_ok_def map_of_put_raw)
  have r1: "records_ok ?s1" using r by (simp add: records_ok_def map_of_put_raw)
  have "covered_at s' t' jp" for t' jp
    unfolding covered_at_def
  proof (intro allI impI)
    fix r' f'
    assume rec: "map_of s' [KStr t', jp] = Some (Obj r')"
      and reg: "map_of s' [KStr ''__indexes_for'', KStr t', KStr f'] \<noteq> None"
      and tr: "truthy (field r' f')"
    from rec io have rec1: "map_of ?s1 [KStr t', jp] = Some (Obj r')" by (simp add: index_only_record)
    then have rec0: "map_of s [KStr t', jp] = Some (Obj r')" by (simp add: map_of_put_raw)
    from reg io have reg1: "map_of ?s1 [KStr ''__indexes_for'', KStr t', KStr f'] \<noteq> None"
      by (simp add: index_only_marker)
    show "\<exists>kp. to_keypart (field r' f') = Some kp \<and>
          map_of s' [KStr ''__indexes'', KStr t', KStr f', kp, jp] = Some (of_keypart jp)"
    proof (cases "t' = t \<and> f' = f")
      case False
      with reg1 have "map_of s [KStr ''__indexes_for'', KStr t', KStr f'] \<noteq> None"
        by (auto simp: map_of_put_raw split: if_splits)
      with c rec0 tr obtain kp where kp: "to_keypart (field r' f') = Some kp"
        and e: "map_of s [KStr ''__indexes'', KStr t', KStr f', kp, jp] = Some (of_keypart jp)"
        unfolding covered_def covered_at_def by blast
      from e have "map_of ?s1 [KStr ''__indexes'', KStr t', KStr f', kp, jp] = Some (of_keypart jp)"
        by (simp add: map_of_put_raw)
      from index_only_keeps[OF io this] kp show ?thesis by blast
    next
      case True
      from rec1 True have "([KStr t, jp], Obj r') \<in> set (under [KStr t] ?s1)"
        by (intro map_of_in_under) simp_all
      then have mem: "Obj r' \<in> set ?es" by force
      from backfill_post[OF bf mem] tr True obtain kp ip where kp: "to_keypart (field r' f) = Some kp"
        and ip: "to_keypart (field r' ''id'') = Some ip"
        and e: "map_of s' [KStr ''__indexes'', KStr t, KStr f, kp, ip] = Some (of_keypart ip)"
        by blast
      from r rec0 ip have "ip = jp" by (auto simp: records_ok_def)
      with kp e True show ?thesis by auto
    qed
  qed
  then have "covered s'" by (simp add: covered_def)
  with index_only_markers_ok[OF io m1] index_only_records_ok[OF io r1] show ?thesis by blast
qed

lemma backfill_kv_ok: "backfill s t f es = (s', r) \<Longrightarrow> kv_ok s \<Longrightarrow> kv_ok s'"
proof (induction es arbitrary: s)
  case Nil
  then show ?case by simp
next
  case (Cons e es)
  show ?case
  proof (cases "get_prop e f")
    case (Inl err)
    with Cons.prems show ?thesis by simp
  next
    case key: (Inr key)
    show ?thesis
    proof (cases "truthy key")
      case False
      with key Cons.prems have "backfill s t f es = (s', r)" by simp
      from Cons.IH[OF this Cons.prems(2)] show ?thesis .
    next
      case True
      show ?thesis
      proof (cases "get_prop e ''id''")
        case (Inl err)
        with key True Cons.prems show ?thesis by simp
      next
        case ident: (Inr ident)
        show ?thesis
        proof (cases "kv_set s [Str ''__indexes'', Str t, Str f, key, ident] ident")
          case (Inl err)
          with key True ident Cons.prems show ?thesis by simp
        next
          case (Inr s1)
          with key True ident Cons.prems have loop: "backfill s1 t f es = (s', r)" by simp
          from Inr Cons.prems(2) have "kv_ok s1"
            by (auto simp: kv_set_def kv_ok_put_raw split: option.splits)
          from Cons.IH[OF loop this] show ?thesis .
        qed
      qed
    qed
  qed
qed

lemma create_index_kv_ok: "create_index s t f = (s', r) \<Longrightarrow> kv_ok s \<Longrightarrow> kv_ok s'"
  by (auto simp: create_index_def get_from_key_def kv_get_def kv_set_def get_all_entries_def kv_list_def
      split: option.splits intro: backfill_kv_ok kv_ok_put_raw)

lemma update_entry_kv_ok: "update_entry s t ent = (s', r) \<Longrightarrow> kv_ok s \<Longrightarrow> kv_ok s'"
  by (auto simp: update_entry_def kv_set_def split: option.splits
      intro: create_indexes_for_entry_kv_ok kv_ok_put_raw)

lemma step_kv_ok: "step s x = (s', r) \<Longrightarrow> kv_ok s \<Longrightarrow> kv_ok s'"
proof (cases x)
  case (Create t val ident now)
  assume "step s x = (s', r)" and ok: "kv_ok s"
  with Create have "s' = fst (create_entry s t val ident now)" by (auto split: prod.splits sum.splits)
  with create_entry_kv_ok[OF ok] show ?thesis by simp
next
  case (Update t ent)
  assume "step s x = (s', r)" and "kv_ok s"
  with Update show ?thesis by (auto intro: update_entry_kv_ok)
next
  case (Declare t f)
  assume "step s x = (s', r)" and "kv_ok s"
  with Declare show ?thesis by (auto intro: create_index_kv_ok)
next
  case (Reindex t val)
  assume "step s x = (s', r)" and "kv_ok s"
  with Reindex show ?thesis by (auto intro: create_indexes_for_entry_kv_ok)
qed

lemma step_inv:
  assumes "step s x = (s', Inr ())" and "well_typed x"
    and m: "markers_ok s" and r: "records_ok s" and c: "covered s"
  shows "markers_ok s' \<and> records_ok s' \<and> covered s'"
proof (cases x)
  case (Create t val ident now)
  let ?ent = "[''id'' \<mapsto> Str ident, ''date_created'' \<mapsto> Date now] ++ val"
  from Create assms(2) have ip: "to_keypart (field ?ent ''id'') = Some (KStr ident)"
    by (simp add: field_def map_add_def)
  from Create assms(1) have "create_indexes_for_entry (put_raw s [KStr t, KStr ident] (Obj ?ent)) t ?ent = (s', Inr ())"
    by (auto simp: create_entry_def kv_set_def Let_def split: prod.splits sum.splits)
  from write_then_index[OF m r c ip this] show ?thesis .
next
  case (Update t ent)
  with assms(1) obtain ip where ip: "to_keypart (field ent ''id'') = Some ip"
    and "create_indexes_for_entry (put_raw s [KStr t, ip] (Obj ent)) t ent = (s', Inr ())"
    by (auto simp: update_entry_def kv_set_def split: option.splits)
  from write_then_index[OF m r c ip this(2)] show ?thesis .
next
  case (Declare t f)
  with assms(1) have "create_index s t f = (s', Inr ())" by simp
  from declare_inv[OF m r c this] show ?thesis .
next
  case (Reindex t val)
  with assms(1) have "create_indexes_for_entry s t val = (s', Inr ())" by simp
  then have io: "index_only s s'" by (rule create_indexes_for_entry_index_only)
  from c have "covered s'" unfolding covered_def using index_only_covered_at[OF io] by blast
  with index_only_markers_ok[OF io m] index_only_records_ok[OF io r] show ?thesis by blast
qed

lemma run_inv:
  "run s xs = Some s' \<Longrightarrow> \<forall>x \<in> set xs. well_typed x \<Longrightarrow>
   kv_ok s \<and> markers_ok s \<and> records_ok s \<and> covered s \<Longrightarrow>
   kv_ok s' \<and> markers_ok s' \<and> records_ok s' \<and> covered s'"
proof (induction xs arbitrary: s)
  case Nil
  then show ?case by simp
next
  case (Cons x xs)
  from Cons.prems(1) obtain s1 where st: "step s x = (s1, Inr ())" and rn: "run s1 xs = Some s'"
    by (auto split: prod.splits sum.splits)
  from Cons.prems(2) have wt: "well_typed x" and wts: "\<forall>x \<in> set xs. well_typed x" by simp_all
  from step_inv[OF st wt] step_kv_ok[OF st] Cons.prems(3)
  have "kv_ok s1 \<and> markers_ok s1 \<and> records_ok s1 \<and> covered s1" by blast
  from Cons.IH[OF rn wts this] show ?case .
qed

lemma empty_inv: "kv_ok [] \<and> markers_ok [] \<and> records_ok [] \<and> covered []"
  by (simp add: kv_ok_def markers_ok_def records_ok_def covered_def covered_at_def)

lemma filter_key_single:
  "kv_ok s \<Longrightarrow> map_of s k = Some v \<Longrightarrow> filter (\<lambda>b. fst b = k) s = [(k, v)]"
proof (induction s)
  case Nil
  then show ?case by simp
next
  case (Cons b s)
  obtain k' v' where b: "b = (k', v')" by (cases b)
  from Cons.prems(1) have below: "\<forall>c \<in> set s. key_less k' (fst c)" and ok: "kv_ok s"
    by (simp_all add: kv_ok_Cons b)
  show ?case
  proof (cases "k' = k")
    case True
    with below key_less_irrefl have "filter (\<lambda>b. fst b = k) s = []"
      by (auto simp: filter_empty_conv)
    with True Cons.prems(2) show ?thesis by (simp add: b)
  next
    case False
    with Cons.prems(2) have "map_of s k = Some v" by (simp add: b)
    from Cons.IH[OF ok this] False show ?thesis by (simp add: b)
  qed
qed

text \<open>
  C1, amended. Start from the empty store and run any sequence of \<open>create_entry\<close>,
  \<open>update_entry\<close>, \<open>create_index\<close> and \<open>create_indexes_for_entry\<close> calls in which every
  call returns normally and no field set given to \<open>create_entry\<close> carries an \<open>id\<close>. Then
  for every live record \<open>r\<close> of a table with a registered index on a field \<open>f\<close> where
  \<open>r[f]\<close> is non-empty (truthy), \<open>r.id\<close> is the identifier the record is stored under,
  and exactly one binding exists under the key \<open>("__indexes", table, f, r[f], r.id)\<close>; its
  value is \<open>r.id\<close>. Nothing is said about entries for values a record no longer has: no
  operation removes an index entry.
\<close>

theorem index_coverage:
  assumes "run [] xs = Some s" and "\<forall>x \<in> set xs. well_typed x"
    and "get_entry s t ident = Inr (Obj r)"
    and "get_from_key s [Str ''__indexes_for'', Str t, Str f] = Inr (Some m)"
    and "truthy (field r f)"
  shows "field r ''id'' = ident \<and>
         kv_get s [Str ''__indexes'', Str t, Str f, field r f, ident] = Inr (Some ident) \<and>
         (\<exists>k. encode_key [Str ''__indexes'', Str t, Str f, field r f, ident] = Some k \<and>
              filter (\<lambda>b. fst b = k) s = [(k, ident)])"
proof -
  from run_inv[OF assms(1,2) empty_inv]
  have ok: "kv_ok s" and rk: "records_ok s" and cv: "covered s" by simp_all
  from assms(3) obtain ip where ip: "to_keypart ident = Some ip"
    and rec: "map_of s [KStr t, ip] = Some (Obj r)"
    by (auto simp: get_entry_def get_from_key_def kv_get_def split: option.splits)
  from assms(4) have reg: "map_of s [KStr ''__indexes_for'', KStr t, KStr f] \<noteq> None"
    by (simp add: get_from_key_def kv_get_def)
  from rk rec have "to_keypart (field r ''id'') = Some ip" by (auto simp: records_ok_def)
  with ip have idr: "field r ''id'' = ident" using of_to_keypart by metis
  from cv rec reg assms(5) obtain kp where kp: "to_keypart (field r f) = Some kp"
    and e: "map_of s [KStr ''__indexes'', KStr t, KStr f, kp, ip] = Some (of_keypart ip)"
    unfolding covered_def covered_at_def by blast
  from of_to_keypart[OF ip] e have e': "map_of s [KStr ''__indexes'', KStr t, KStr f, kp, ip] = Some ident"
    by simp
  from kp ip have enc: "encode_key [Str ''__indexes'', Str t, Str f, field r f, ident]
      = Some [KStr ''__indexes'', KStr t, KStr f, kp, ip]" by simp
  from enc e' have "kv_get s [Str ''__indexes'', Str t, Str f, field r f, ident] = Inr (Some ident)"
    by (simp add: kv_get_def)
  with idr enc filter_key_single[OF ok e'] show ?thesis by simp
qed

lemma email_changed_run: "run [] email_changed = Some
  [([KStr ''__indexes'', KStr ''users'', KStr ''email'', KStr ''a@a'', KStr ''01A''], Str ''01A''),
   ([KStr ''__indexes'', KStr ''users'', KStr ''email'', KStr ''b@b'', KStr ''01A''], Str ''01A''),
   ([KStr ''__indexes_for'', KStr ''users'', KStr ''email''], Str ''email''),
   ([KStr ''users'', KStr ''01A''], Obj [''id'' \<mapsto> Str ''01A'', ''email'' \<mapsto> Str ''b@b''])]"
  by (simp add: email_changed_def create_index_def get_from_key_def kv_get_def kv_set_def key_less_def
        get_all_entries_def kv_list_def under_def field_def create_entry_def Let_def
        create_indexes_for_entry_def update_entry_def)

text \<open>
  C1 fails as stated: after the user's \<open>email\<close> was changed from \<open>a@a\<close> to \<open>b@b\<close>, the
  index entry for \<open>a@a\<close>, a value the record no longer has, is still in the store.
\<close>

theorem stale_index_entry_counterexample:
  "run [] email_changed \<noteq> None \<and>
   get_entry (the (run [] email_changed)) ''users'' (Str ''01A'')
     = Inr (Obj [''id'' \<mapsto> Str ''01A'', ''email'' \<mapsto> Str ''b@b'']) \<and>
   kv_get (the (run [] email_changed))
     [Str ''__indexes'', Str ''users'', Str ''email'', Str ''a@a'', Str ''01A''] = Inr (Some (Str ''01A''))"
  by (simp add: email_changed_run get_entry_def get_from_key_def kv_get_def)

theorem index_coverage_witness:
  "run [] email_changed = Some (the (run [] email_changed)) \<and>
   get_entry (the (run [] email_changed)) ''users'' (Str ''01A'')
     = Inr (Obj [''id'' \<mapsto> Str ''01A'', ''email'' \<mapsto> Str ''b@b'']) \<and>
   get_from_key (the (run [] email_changed)) [Str ''__indexes_for'', Str ''users'', Str ''email'']
     = Inr (Some (Str ''email'')) \<and>
   truthy (field [''id'' \<mapsto> Str ''01A'', ''email'' \<mapsto> Str ''b@b''] ''email'') \<and>
   kv_get (the (run [] email_changed))
     [Str ''__indexes'', Str ''users'', Str ''email'',
      field [''id'' \<mapsto> Str ''01A'', ''email'' \<mapsto> Str ''b@b''] ''email'', Str ''01A'']
     = Inr (Some (Str ''01A''))"
proof -
  let ?s = "the (run [] email_changed)"
  let ?r = "[''id'' \<mapsto> Str ''01A'', ''email'' \<mapsto> Str ''b@b'']"
  have h1: "run [] email_changed = Some ?s" by (simp add: email_changed_run)
  have h2: "\<forall>x \<in> set email_changed. well_typed x" by (simp add: email_changed_def)
  have h3: "get_entry ?s ''users'' (Str ''01A'') = Inr (Obj ?r)"
    by (simp add: email_changed_run get_entry_def get_from_key_def kv_get_def)
  have h4: "get_from_key ?s [Str ''__indexes_for'', Str ''users'', Str ''email''] = Inr (Some (Str ''email''))"
    by (simp add: email_changed_run get_from_key_def kv_get_def)
  have h5: "truthy (field ?r ''email'')" by (simp add: field_def)
  from index_coverage[OF h1 h2 h3 h4 h5] h1 h2 h3 h4 h5 show ?thesis by blast
qed

section \<open>Deleting a record: properties\<close>

lemma map_of_del_raw: "map_of (del_raw s k) k' = (if k' = k then None else map_of s k')"
  by (induction s) (auto simp: del_raw_def)

lemma on_delete_loop_shrinks:
  "map_of (on_delete_loop s t r ident L) k = None \<or> map_of (on_delete_loop s t r ident L) k = map_of s k"
proof (induction L arbitrary: s)
  case Nil
  then show ?case by simp
next
  case (Cons sk L)
  show ?case
  proof (cases "encode_key [Str ''__indexes'', Str t, snd sk, field_named r (snd sk), ident]")
    case None
    with Cons.IH[of s] show ?thesis by (simp add: kv_delete_def)
  next
    case (Some k1)
    with Cons.IH[of "del_raw s k1"] show ?thesis
      by (auto simp: kv_delete_def map_of_del_raw split: if_splits)
  qed
qed

lemma on_delete_loop_removes:
  assumes "sk \<in> set L"
    and "encode_key [Str ''__indexes'', Str t, snd sk, field_named r (snd sk), ident] = Some k"
  shows "map_of (on_delete_loop s t r ident L) k = None"
  using assms(1)
proof (induction L arbitrary: s)
  case Nil
  then show ?case by simp
next
  case (Cons a L)
  show ?case
  proof (cases "sk = a")
    case True
    from on_delete_loop_shrinks[of "del_raw s k" t r ident L k]
    have "map_of (on_delete_loop (del_raw s k) t r ident L) k = None"
      by (simp add: map_of_del_raw)
    with True assms(2) show ?thesis by (simp add: kv_delete_def)
  next
    case False
    with Cons.prems have "sk \<in> set L" by simp
    from Cons.IH[OF this] show ?thesis by (simp split: sum.splits)
  qed
qed

lemma list_all2_right_source:
  "list_all2 (\<lambda>e x. g (snd e) = Inr x) es rs \<Longrightarrow> \<forall>x \<in> set rs. \<exists>j. g j = Inr x"
  by (induction es rs rule: list_all2_induct) auto

lemma on_delete_shrinks:
  "map_of (on_delete s t r ident) k = None \<or> map_of (on_delete s t r ident) k = map_of s k"
  by (simp add: on_delete_def on_delete_loop_shrinks)

lemma on_delete_loop_frame:
  "length k \<noteq> 5 \<Longrightarrow> map_of (on_delete_loop s t r ident L) k = map_of s k"
proof (induction L arbitrary: s)
  case Nil
  then show ?case by simp
next
  case (Cons sk L)
  show ?case
  proof (cases "encode_key [Str ''__indexes'', Str t, snd sk, field_named r (snd sk), ident]")
    case None
    with Cons.IH[OF Cons.prems, of s] show ?thesis by (simp add: kv_delete_def)
  next
    case (Some k1)
    from encode_key_index[OF Some] Cons.prems have "k \<noteq> k1" by auto
    with Some Cons.IH[OF Cons.prems, of "del_raw s k1"] show ?thesis
      by (simp add: kv_delete_def map_of_del_raw)
  qed
qed

lemma delete_entry_steps:
  assumes "kv_get s [Str t, target_id a] = Inr (Some v)"
  shows "\<exists>ip. to_keypart (target_id a) = Some ip \<and> map_of s [KStr t, ip] = Some v \<and>
     delete_entry s t a
       = (on_delete (del_raw s [KStr t, ip]) t (case v of Obj r \<Rightarrow> r | _ \<Rightarrow> Map.empty)
            (target_id a), Inr ())"
  using assms
  by (auto simp: delete_entry_def kv_get_def kv_delete_def split: option.splits)

lemma delete_entry_shrinks:
  assumes "kv_get s [Str t, target_id a] = Inr (Some v)"
  shows "map_of (fst (delete_entry s t a)) k = None \<or>
         map_of (fst (delete_entry s t a)) k = map_of s k"
proof -
  from delete_entry_steps[OF assms] obtain ip where
    d: "delete_entry s t a
       = (on_delete (del_raw s [KStr t, ip]) t (case v of Obj r \<Rightarrow> r | _ \<Rightarrow> Map.empty)
            (target_id a), Inr ())"
    by blast
  have e: "fst (delete_entry s t a)
      = on_delete (del_raw s [KStr t, ip]) t (case v of Obj r \<Rightarrow> r | _ \<Rightarrow> Map.empty) (target_id a)"
    by (simp add: d)
  have "map_of (del_raw s [KStr t, ip]) k = None \<or> map_of (del_raw s [KStr t, ip]) k = map_of s k"
    by (simp add: map_of_del_raw)
  with on_delete_shrinks[of "del_raw s [KStr t, ip]" t "case v of Obj r \<Rightarrow> r | _ \<Rightarrow> Map.empty"
      "target_id a" k]
  show ?thesis unfolding e by argo
qed

lemma delete_entry_gone:
  assumes "kv_get s [Str t, target_id a] = Inr (Some v)"
  shows "get_entry (fst (delete_entry s t a)) t (target_id a) = Inr Undefined"
proof -
  from delete_entry_steps[OF assms] obtain ip where ip: "to_keypart (target_id a) = Some ip" and
    d: "delete_entry s t a
       = (on_delete (del_raw s [KStr t, ip]) t (case v of Obj r \<Rightarrow> r | _ \<Rightarrow> Map.empty)
            (target_id a), Inr ())"
    by blast
  have e: "fst (delete_entry s t a)
      = on_delete (del_raw s [KStr t, ip]) t (case v of Obj r \<Rightarrow> r | _ \<Rightarrow> Map.empty) (target_id a)"
    by (simp add: d)
  have "map_of (del_raw s [KStr t, ip]) [KStr t, ip] = None"
    by (simp add: map_of_del_raw)
  with on_delete_shrinks[of "del_raw s [KStr t, ip]" t "case v of Obj r \<Rightarrow> r | _ \<Rightarrow> Map.empty"
      "target_id a" "[KStr t, ip]"]
  have "map_of (fst (delete_entry s t a)) [KStr t, ip] = None"
    unfolding e by argo
  with ip show ?thesis by (simp add: get_entry_def get_from_key_def kv_get_def)
qed

lemma delete_entry_frame:
  assumes "kv_get s [Str t, target_id a] = Inr (Some v)"
    and "to_keypart (target_id a) = Some ip" and "[KStr t', jp] \<noteq> [KStr t, ip]"
  shows "map_of (fst (delete_entry s t a)) [KStr t', jp] = map_of s [KStr t', jp]"
proof -
  from delete_entry_steps[OF assms(1)] assms(2) have
    d: "delete_entry s t a
       = (on_delete (del_raw s [KStr t, ip]) t (case v of Obj r \<Rightarrow> r | _ \<Rightarrow> Map.empty)
            (target_id a), Inr ())"
    by auto
  have "length [KStr t', jp] \<noteq> 5" by simp
  from on_delete_loop_frame[OF this] assms(3) show ?thesis
    unfolding d on_delete_def by (auto simp: map_of_del_raw)
qed

lemma delete_entry_unindexes:
  assumes "kv_get s [Str t, target_id a] = Inr (Some (Obj r))"
    and "map_of s [KStr ''__indexes_for'', KStr t, KStr f] = Some (Str f)"
    and "to_keypart (field r f) = Some kp" and "to_keypart (target_id a) = Some ip"
  shows "map_of (fst (delete_entry s t a)) [KStr ''__indexes'', KStr t, KStr f, kp, ip] = None"
proof -
  from delete_entry_steps[OF assms(1)] assms(4) have
    d: "delete_entry s t a = (on_delete (del_raw s [KStr t, ip]) t r (target_id a), Inr ())"
    by auto
  let ?s1 = "del_raw s [KStr t, ip]"
  let ?m = "([KStr ''__indexes_for'', KStr t, KStr f], Str f)"
  from assms(2) have "map_of ?s1 [KStr ''__indexes_for'', KStr t, KStr f] = Some (Str f)"
    by (simp add: map_of_del_raw)
  then have m: "?m \<in> set (under [KStr ''__indexes_for'', KStr t] ?s1)"
    by (rule map_of_in_under) simp
  from assms(3,4) have "encode_key [Str ''__indexes'', Str t, snd ?m, field_named r (snd ?m), target_id a]
      = Some [KStr ''__indexes'', KStr t, KStr f, kp, ip]" by simp
  from on_delete_loop_removes[OF m this] show ?thesis unfolding d on_delete_def by simp
qed

lemma delete_entry_not_read:
  assumes "kv_get s [Str t, target_id a] = Inr (Some (Obj r))"
    and "\<forall>j. j \<noteq> target_id a \<longrightarrow> get_entry s t j \<noteq> Inr (Obj r)"
  shows "get_entry (fst (delete_entry s t a)) t j \<noteq> Inr (Obj r)"
proof (cases "j = target_id a")
  case True
  with delete_entry_gone[OF assms(1)] show ?thesis by simp
next
  case False
  with assms(2) have old: "get_entry s t j \<noteq> Inr (Obj r)" by blast
  show ?thesis
  proof (cases "to_keypart j")
    case None
    then show ?thesis by (simp add: get_entry_def get_from_key_def kv_get_def)
  next
    case (Some jp)
    from delete_entry_shrinks[OF assms(1), of "[KStr t, jp]"] old Some
    show ?thesis by (auto simp: get_entry_def get_from_key_def kv_get_def split: option.splits)
  qed
qed

lemma delete_entry_single_lookup:
  assumes "kv_get s [Str t, target_id a] = Inr (Some (Obj r))"
    and "\<forall>j. j \<noteq> target_id a \<longrightarrow> get_entry s t j \<noteq> Inr (Obj r)"
    and "to_keypart v = Some vp"
    and "under [KStr ''__indexes'', KStr t, KStr g, vp] (fst (delete_entry s t a)) = e # es"
    and "to_keypart (snd e) \<noteq> None"
  shows "\<exists>x. get_entry_by_index (fst (delete_entry s t a)) t g v = Inr x \<and> x \<noteq> Obj r"
proof -
  let ?s' = "fst (delete_entry s t a)"
  from assms(3,4) have eq: "get_entry_by_index ?s' t g v = get_entry ?s' t (snd e)"
    by (simp add: get_entry_by_index_def get_all_from_key_def kv_list_def)
  from get_entry_total[OF assms(5), of ?s' t] obtain x where x: "get_entry ?s' t (snd e) = Inr x" ..
  with delete_entry_not_read[OF assms(1,2), of "snd e"] have "x \<noteq> Obj r" by auto
  with eq x show ?thesis by simp
qed

lemma delete_entry_plural_lookup:
  assumes "kv_get s [Str t, target_id a] = Inr (Some (Obj r))"
    and "\<forall>j. j \<noteq> target_id a \<longrightarrow> get_entry s t j \<noteq> Inr (Obj r)"
    and "get_entries_by_index (fst (delete_entry s t a)) t g v = Inr rs"
  shows "Obj r \<notin> set rs"
proof -
  let ?s' = "fst (delete_entry s t a)"
  from assms(3) obtain es where "deref_all ?s' t es = Inr rs"
    by (auto simp: get_entries_by_index_def split: sum.splits)
  from deref_all_each[OF this] have "list_all2 (\<lambda>e x. get_entry ?s' t (snd e) = Inr x) es rs" .
  then have "\<forall>x \<in> set rs. \<exists>j. get_entry ?s' t j = Inr x"
    by (rule list_all2_right_source)
  with delete_entry_not_read[OF assms(1,2)] show ?thesis by blast
qed

lemma get_entries_by_index_total:
  assumes "to_keypart v = Some vp"
    and "\<forall>e \<in> set (under [KStr ''__indexes'', KStr t, KStr g, vp] s). to_keypart (snd e) \<noteq> None"
  shows "\<exists>rs. get_entries_by_index s t g v = Inr rs"
  using deref_all_total[OF assms(2), of s t] assms(1)
  by (simp add: get_entries_by_index_def get_all_from_key_def kv_list_def)

text \<open>
  C2, amended, on the operation as the spec describes it. Deleting a record, given as the
  record or as its identifier, that the store does not hold fails with \<open>NotFound\<close> and
  leaves the store as it was. Deleting an existing record returns normally. Afterwards
  \<open>get_entry(table, id)\<close> is absent and every other record reads as before; for every
  registered field, the index entry for the value the record held at deletion is gone;
  and, when no other identifier of the table held the same record, no indexed lookup
  returns the record: \<open>get_entry_by_index\<close> never yields it, and yields another value or
  absent when a first matching entry exists, and \<open>get_entries_by_index\<close> returns a list
  without it. Index entries that earlier updates left behind for former values of the
  record are not removed.
\<close>

theorem delete_entry_removes:
  "(kv_get s [Str t, target_id a] = Inr None \<longrightarrow> delete_entry s t a = (s, Inl NotFound)) \<and>
   (kv_get s [Str t, target_id a] = Inr (Some (Obj r)) \<longrightarrow>
      snd (delete_entry s t a) = Inr () \<and>
      get_entry (fst (delete_entry s t a)) t (target_id a) = Inr Undefined \<and>
      (to_keypart (target_id a) = Some ip \<and> to_keypart j = Some jp \<and> (t', jp) \<noteq> (t, ip) \<longrightarrow>
         get_entry (fst (delete_entry s t a)) t' j = get_entry s t' j) \<and>
      (map_of s [KStr ''__indexes_for'', KStr t, KStr f] = Some (Str f) \<and>
       to_keypart (field r f) = Some kp \<and> to_keypart (target_id a) = Some ip \<longrightarrow>
         map_of (fst (delete_entry s t a)) [KStr ''__indexes'', KStr t, KStr f, kp, ip] = None) \<and>
      ((\<forall>j. j \<noteq> target_id a \<longrightarrow> get_entry s t j \<noteq> Inr (Obj r)) \<longrightarrow>
         get_entry_by_index (fst (delete_entry s t a)) t g v \<noteq> Inr (Obj r) \<and>
         (to_keypart v = Some vp \<and>
          under [KStr ''__indexes'', KStr t, KStr g, vp] (fst (delete_entry s t a)) = e # es \<and>
          to_keypart (snd e) \<noteq> None \<longrightarrow>
            (\<exists>x. get_entry_by_index (fst (delete_entry s t a)) t g v = Inr x \<and> x \<noteq> Obj r)) \<and>
         (to_keypart v = Some vp \<and>
          (\<forall>e \<in> set (under [KStr ''__indexes'', KStr t, KStr g, vp] (fst (delete_entry s t a))).
             to_keypart (snd e) \<noteq> None) \<longrightarrow>
            (\<exists>rs. get_entries_by_index (fst (delete_entry s t a)) t g v = Inr rs \<and>
                  Obj r \<notin> set rs))))"
proof (intro conjI impI)
  assume "kv_get s [Str t, target_id a] = Inr None"
  then show "delete_entry s t a = (s, Inl NotFound)" by (simp add: delete_entry_def)
next
  assume "kv_get s [Str t, target_id a] = Inr (Some (Obj r))"
  from delete_entry_steps[OF this] show "snd (delete_entry s t a) = Inr ()" by auto
next
  assume "kv_get s [Str t, target_id a] = Inr (Some (Obj r))"
  then show "get_entry (fst (delete_entry s t a)) t (target_id a) = Inr Undefined"
    by (rule delete_entry_gone)
next
  assume k: "kv_get s [Str t, target_id a] = Inr (Some (Obj r))"
    and h: "to_keypart (target_id a) = Some ip \<and> to_keypart j = Some jp \<and> (t', jp) \<noteq> (t, ip)"
  then have "[KStr t', jp] \<noteq> [KStr t, ip]" by auto
  from delete_entry_frame[OF k _ this] h
  show "get_entry (fst (delete_entry s t a)) t' j = get_entry s t' j"
    by (simp add: get_entry_def get_from_key_def kv_get_def)
next
  assume "kv_get s [Str t, target_id a] = Inr (Some (Obj r))"
    and "map_of s [KStr ''__indexes_for'', KStr t, KStr f] = Some (Str f) \<and>
       to_keypart (field r f) = Some kp \<and> to_keypart (target_id a) = Some ip"
  then show "map_of (fst (delete_entry s t a)) [KStr ''__indexes'', KStr t, KStr f, kp, ip] = None"
    by (simp add: delete_entry_unindexes)
next
  assume k: "kv_get s [Str t, target_id a] = Inr (Some (Obj r))"
    and b: "\<forall>j. j \<noteq> target_id a \<longrightarrow> get_entry s t j \<noteq> Inr (Obj r)"
  show "get_entry_by_index (fst (delete_entry s t a)) t g v \<noteq> Inr (Obj r)"
    using delete_entry_not_read[OF k b]
    by (auto simp: get_entry_by_index_def split: sum.splits)
next
  assume k: "kv_get s [Str t, target_id a] = Inr (Some (Obj r))"
    and b: "\<forall>j. j \<noteq> target_id a \<longrightarrow> get_entry s t j \<noteq> Inr (Obj r)"
    and c: "to_keypart v = Some vp \<and>
          under [KStr ''__indexes'', KStr t, KStr g, vp] (fst (delete_entry s t a)) = e # es \<and>
          to_keypart (snd e) \<noteq> None"
  from c have c1: "to_keypart v = Some vp"
    and c2: "under [KStr ''__indexes'', KStr t, KStr g, vp] (fst (delete_entry s t a)) = e # es"
    and c3: "to_keypart (snd e) \<noteq> None" by simp_all
  from delete_entry_single_lookup[OF k b c1 c2 c3]
  show "\<exists>x. get_entry_by_index (fst (delete_entry s t a)) t g v = Inr x \<and> x \<noteq> Obj r" .
next
  assume k: "kv_get s [Str t, target_id a] = Inr (Some (Obj r))"
    and b: "\<forall>j. j \<noteq> target_id a \<longrightarrow> get_entry s t j \<noteq> Inr (Obj r)"
    and c: "to_keypart v = Some vp \<and>
          (\<forall>e \<in> set (under [KStr ''__indexes'', KStr t, KStr g, vp] (fst (delete_entry s t a))).
             to_keypart (snd e) \<noteq> None)"
  from c have c1: "to_keypart v = Some vp"
    and c2: "\<forall>e \<in> set (under [KStr ''__indexes'', KStr t, KStr g, vp] (fst (delete_entry s t a))).
             to_keypart (snd e) \<noteq> None" by simp_all
  from get_entries_by_index_total[OF c1 c2] obtain rs where
    rs: "get_entries_by_index (fst (delete_entry s t a)) t g v = Inr rs" ..
  from delete_entry_plural_lookup[OF k b rs] rs
  show "\<exists>rs. get_entries_by_index (fst (delete_entry s t a)) t g v = Inr rs \<and> Obj r \<notin> set rs"
    by blast
qed

text \<open>
  C2 fails as stated: not every index entry of the record is removed. After the user's
  \<open>email\<close> was changed from \<open>a@a\<close> to \<open>b@b\<close>, deleting the user returns normally and
  leaves the index entry for \<open>a@a\<close> in the store; the lookup through it finds no record.
\<close>

theorem delete_entry_stale_index_counterexample:
  "snd (delete_entry (the (run [] email_changed)) ''users''
          (Obj [''id'' \<mapsto> Str ''01A'', ''email'' \<mapsto> Str ''b@b''])) = Inr () \<and>
   kv_get (fst (delete_entry (the (run [] email_changed)) ''users''
          (Obj [''id'' \<mapsto> Str ''01A'', ''email'' \<mapsto> Str ''b@b''])))
     [Str ''__indexes'', Str ''users'', Str ''email'', Str ''a@a'', Str ''01A''] = Inr (Some (Str ''01A'')) \<and>
   get_entries_by_index (fst (delete_entry (the (run [] email_changed)) ''users''
          (Obj [''id'' \<mapsto> Str ''01A'', ''email'' \<mapsto> Str ''b@b''])))
     ''users'' ''email'' (Str ''a@a'') = Inr [Undefined]"
  by (simp add: email_changed_run delete_entry_def target_id_def field_def kv_get_def kv_delete_def
      del_raw_def on_delete_def under_def get_entries_by_index_def get_all_from_key_def kv_list_def
      get_entry_def get_from_key_def)

theorem delete_entry_removes_witness:
  "kv_get indexed1 [Str ''users'', target_id (Str ''01B'')] = Inr None \<and>
   delete_entry indexed1 ''users'' (Str ''01B'') = (indexed1, Inl NotFound) \<and>
   kv_get dangling [Str ''users'', target_id (Obj [''id'' \<mapsto> Str ''01A'', ''date_created'' \<mapsto> Date 5, ''email'' \<mapsto> Str ''a@a''])]
     = Inr (Some (Obj [''id'' \<mapsto> Str ''01A'', ''date_created'' \<mapsto> Date 5, ''email'' \<mapsto> Str ''a@a''])) \<and>
   snd (delete_entry dangling ''users''
          (Obj [''id'' \<mapsto> Str ''01A'', ''date_created'' \<mapsto> Date 5, ''email'' \<mapsto> Str ''a@a''])) = Inr () \<and>
   get_entry (fst (delete_entry dangling ''users''
          (Obj [''id'' \<mapsto> Str ''01A'', ''date_created'' \<mapsto> Date 5, ''email'' \<mapsto> Str ''a@a''])))
      ''users'' (Str ''01A'') = Inr Undefined \<and>
   map_of (fst (delete_entry dangling ''users''
          (Obj [''id'' \<mapsto> Str ''01A'', ''date_created'' \<mapsto> Date 5, ''email'' \<mapsto> Str ''a@a''])))
     [KStr ''__indexes'', KStr ''users'', KStr ''email'', KStr ''a@a'', KStr ''01A''] = None \<and>
   (\<exists>x. get_entry_by_index (fst (delete_entry dangling ''users''
          (Obj [''id'' \<mapsto> Str ''01A'', ''date_created'' \<mapsto> Date 5, ''email'' \<mapsto> Str ''a@a''])))
        ''users'' ''email'' (Str ''a@a'') = Inr x \<and>
      x \<noteq> Obj [''id'' \<mapsto> Str ''01A'', ''date_created'' \<mapsto> Date 5, ''email'' \<mapsto> Str ''a@a'']) \<and>
   (\<exists>rs. get_entries_by_index (fst (delete_entry dangling ''users''
          (Obj [''id'' \<mapsto> Str ''01A'', ''date_created'' \<mapsto> Date 5, ''email'' \<mapsto> Str ''a@a''])))
        ''users'' ''email'' (Str ''a@a'') = Inr rs \<and>
      Obj [''id'' \<mapsto> Str ''01A'', ''date_created'' \<mapsto> Date 5, ''email'' \<mapsto> Str ''a@a''] \<notin> set rs)"
proof -
  let ?r = "[''id'' \<mapsto> Str ''01A'', ''date_created'' \<mapsto> Date 5, ''email'' \<mapsto> Str ''a@a'']"
  let ?s' = "fst (delete_entry dangling ''users'' (Obj ?r))"
  let ?e = "([KStr ''__indexes'', KStr ''users'', KStr ''email'', KStr ''a@a'', KStr ''00Z''], Str ''00Z'')"
  have t1: "target_id (Str ''01B'') = Str ''01B''" by (simp add: target_id_def)
  have t2: "target_id (Obj ?r) = Str ''01A''" by (simp add: target_id_def field_def)
  have h1: "kv_get indexed1 [Str ''users'', target_id (Str ''01B'')] = Inr None"
    by (simp add: t1 indexed1_eq kv_get_def)
  have h2: "kv_get dangling [Str ''users'', target_id (Obj ?r)] = Inr (Some (Obj ?r))"
    by (simp add: t2 dangling_eq kv_get_def)
  have h3: "map_of dangling [KStr ''__indexes_for'', KStr ''users'', KStr ''email''] = Some (Str ''email'') \<and>
      to_keypart (field ?r ''email'') = Some (KStr ''a@a'') \<and> to_keypart (target_id (Obj ?r)) = Some (KStr ''01A'')"
    by (simp add: t2 dangling_eq field_def)
  have h4: "\<forall>j. j \<noteq> target_id (Obj ?r) \<longrightarrow> get_entry dangling ''users'' j \<noteq> Inr (Obj ?r)"
  proof (intro allI impI)
    fix j assume j: "j \<noteq> target_id (Obj ?r)"
    show "get_entry dangling ''users'' j \<noteq> Inr (Obj ?r)"
    proof (cases "to_keypart j")
      case None
      then show ?thesis by (simp add: get_entry_def get_from_key_def kv_get_def)
    next
      case (Some jp)
      with j of_to_keypart[OF Some] have "jp \<noteq> KStr ''01A''" by (auto simp: t2)
      with Some show ?thesis
        by (simp add: get_entry_def get_from_key_def kv_get_def dangling_eq)
    qed
  qed
  have ev: "?s' =
    [([KStr ''__indexes'', KStr ''users'', KStr ''email'', KStr ''a@a'', KStr ''00Z''], Str ''00Z''),
     ([KStr ''__indexes_for'', KStr ''users'', KStr ''email''], Str ''email'')]"
    by (simp add: dangling_eq delete_entry_def target_id_def field_def kv_get_def kv_delete_def
        del_raw_def on_delete_def under_def)
  have h5: "to_keypart (Str ''a@a'') = Some (KStr ''a@a'') \<and>
      under [KStr ''__indexes'', KStr ''users'', KStr ''email'', KStr ''a@a''] ?s' = ?e # [] \<and>
      to_keypart (snd ?e) \<noteq> None"
    by (simp add: ev under_def)
  have h6: "to_keypart (Str ''a@a'') = Some (KStr ''a@a'') \<and>
      (\<forall>e \<in> set (under [KStr ''__indexes'', KStr ''users'', KStr ''email'', KStr ''a@a''] ?s').
         to_keypart (snd e) \<noteq> None)"
    by (simp add: ev under_def)
  note a = delete_entry_removes[of indexed1 "''users''" "Str ''01B''"]
  note b = delete_entry_removes[of dangling "''users''" "Obj ?r" ?r "KStr ''01A''" _ _ _ "''email''"
      "KStr ''a@a''" "''email''" "Str ''a@a''" "KStr ''a@a''" ?e "[]"]
  from a h1 have c1: "delete_entry indexed1 ''users'' (Str ''01B'') = (indexed1, Inl NotFound)" by blast
  from b h2 have c2: "snd (delete_entry dangling ''users'' (Obj ?r)) = Inr ()" by blast
  from b h2 have c3: "get_entry ?s' ''users'' (Str ''01A'') = Inr Undefined" by (simp add: t2)
  from b h2 h3 have c4: "map_of ?s'
      [KStr ''__indexes'', KStr ''users'', KStr ''email'', KStr ''a@a'', KStr ''01A''] = None" by blast
  from b h2 h4 h5 have c5: "\<exists>x. get_entry_by_index ?s' ''users'' ''email'' (Str ''a@a'') = Inr x \<and>
      x \<noteq> Obj ?r" by blast
  from b h2 h4 h6 have c6: "\<exists>rs. get_entries_by_index ?s' ''users'' ''email'' (Str ''a@a'') = Inr rs \<and>
      Obj ?r \<notin> set rs" by blast
  from h1 c1 h2 c2 c3 c4 c5 c6 show ?thesis by blast
qed

end
